theory Spec2Isabelle
  imports Main
begin

section \<open>Data model\<close>

text \<open>
  The evaluator of \<^verbatim>\<open>src/main.py\<close> (class \<^verbatim>\<open>SetVisualizer\<close>) works on
  one-dimensional boolean numpy arrays, on Python strings and on a list of string tokens.
  A mask is modelled as a \<open>bool list\<close>, the dictionary \<^verbatim>\<open>masks\<close> as a map from
  token strings to masks, and a character as a code point below 256.

  Every \<^verbatim>\<open>raise ValueError(...)\<close> of the source is a constructor of \<open>error\<close>,
  named after its message. The binary numpy operators raise a \<^verbatim>\<open>ValueError\<close> of
  their own when the shapes of the operands cannot be broadcast; that is the last
  constructor. Python's recursion limit is not modelled.
\<close>

type_synonym mask = "bool list"

type_synonym masks = "string \<rightharpoonup> mask"

datatype error =
    Unknown_character char
  | Unexpected_end_of_expression
  | Missing_closing_parenthesis
  | Unexpected_token string
  | Operands_could_not_be_broadcast

subsection \<open>numpy operators on one-dimensional boolean arrays\<close>

text \<open>
  \<^verbatim>\<open>x | y\<close>, \<^verbatim>\<open>x & y\<close> and \<^verbatim>\<open>x ^ y\<close> work elementwise on arrays of one
  length; an array of length one is broadcast against the other operand; any other pair of
  lengths raises.
\<close>

definition np_binop :: "(bool \<Rightarrow> bool \<Rightarrow> bool) \<Rightarrow> mask \<Rightarrow> mask \<Rightarrow> error + mask" where
  "np_binop f xs ys =
     (if length xs = length ys then Inr (map2 f xs ys)
      else if length xs = 1 then Inr (map (f (hd xs)) ys)
      else if length ys = 1 then Inr (map (\<lambda>x. f x (hd ys)) xs)
      else Inl Operands_could_not_be_broadcast)"

definition np_or :: "mask \<Rightarrow> mask \<Rightarrow> error + mask" where
  "np_or = np_binop (\<or>)"

definition np_and :: "mask \<Rightarrow> mask \<Rightarrow> error + mask" where
  "np_and = np_binop (\<and>)"

definition np_xor :: "mask \<Rightarrow> mask \<Rightarrow> error + mask" where
  "np_xor = np_binop (\<noteq>)"

definition np_invert :: "mask \<Rightarrow> mask" where
  "np_invert xs = map Not xs"

definition np_ones :: "nat \<Rightarrow> mask" where
  "np_ones n = replicate n True"

definition np_zeros :: "nat \<Rightarrow> mask" where
  "np_zeros n = replicate n False"

subsection \<open>Python string helpers\<close>

text \<open>
  \<^verbatim>\<open>str.isspace\<close> on one character, for code points below 256: the ASCII
  whitespace 9 to 13 and 32, the separators 28 to 31, and the Latin-1 characters 133 (NEL)
  and 160 (no-break space). \<^verbatim>\<open>str.strip()\<close> removes such characters at both ends.
\<close>

definition isspace :: "char \<Rightarrow> bool" where
  "isspace c = (of_char c \<in> set [9, 10, 11, 12, 13, 28, 29, 30, 31, 32, 133, 160 :: nat])"

definition strip :: "string \<Rightarrow> string" where
  "strip s = rev (dropWhile isspace (rev (dropWhile isspace s)))"

section \<open>The tokenizer\<close>

text \<open>
  \<^verbatim>\<open>_tokenize\<close>: the \<^verbatim>\<open>while i < len(expr)\<close> loop, with the index \<open>i\<close> and the
  token list built so far as loop state.
\<close>

function tokenize_loop :: "string \<Rightarrow> nat \<Rightarrow> string list \<Rightarrow> error + string list" where
  "tokenize_loop expr i tokens =
     (if i < length expr then
        (if isspace (expr ! i) then tokenize_loop expr (i + 1) tokens
         else if expr ! i \<in> set ''ABC'' then tokenize_loop expr (i + 1) (tokens @ [[expr ! i]])
         else if expr ! i = CHR ''.'' then tokenize_loop expr (i + 1) (tokens @ [''NOT''])
         else if expr ! i = CHR ''U'' then tokenize_loop expr (i + 1) (tokens @ [''OR''])
         else if expr ! i = CHR ''&'' then tokenize_loop expr (i + 1) (tokens @ [''AND''])
         else if expr ! i = CHR ''^'' then tokenize_loop expr (i + 1) (tokens @ [''XOR''])
         else if expr ! i = CHR ''-'' then tokenize_loop expr (i + 1) (tokens @ [''DIFF''])
         else if expr ! i = CHR ''('' then tokenize_loop expr (i + 1) (tokens @ [''(''])
         else if expr ! i = CHR '')'' then tokenize_loop expr (i + 1) (tokens @ ['')''])
         else Inl (Unknown_character (expr ! i)))
      else Inr tokens)"
  by pat_completeness auto
termination
  by (relation "measure (\<lambda>(expr, i, tokens). length expr - i)") auto

declare tokenize_loop.simps [simp del]

definition tokenize :: "string \<Rightarrow> error + string list" where
  "tokenize expr = tokenize_loop expr 0 []"

section \<open>The recursive-descent parser and evaluator\<close>

text \<open>
  One function for each method \<^verbatim>\<open>_parse_expression\<close>, \<^verbatim>\<open>_parse_or\<close>,
  \<^verbatim>\<open>_parse_diff\<close>, \<^verbatim>\<open>_parse_xor\<close>, \<^verbatim>\<open>_parse_and\<close>, \<^verbatim>\<open>_parse_not\<close> and
  \<^verbatim>\<open>_parse_atom\<close>, with the source's parameters \<open>tokens\<close>, \<open>pos\<close>, \<open>masks\<close>
  and \<open>universal\<close> and its result \<open>(mask, pos)\<close>. The \<^verbatim>\<open>while\<close> loop of each
  binary tier is the function with suffix \<open>_loop\<close>, whose state is the accumulator
  \<open>left\<close> and the position.
\<close>

function
  parse_expression :: "string list \<Rightarrow> nat \<Rightarrow> masks \<Rightarrow> mask \<Rightarrow> error + (mask \<times> nat)" and
  parse_or :: "string list \<Rightarrow> nat \<Rightarrow> masks \<Rightarrow> mask \<Rightarrow> error + (mask \<times> nat)" and
  parse_or_loop :: "string list \<Rightarrow> mask \<Rightarrow> nat \<Rightarrow> masks \<Rightarrow> mask \<Rightarrow> error + (mask \<times> nat)" and
  parse_diff :: "string list \<Rightarrow> nat \<Rightarrow> masks \<Rightarrow> mask \<Rightarrow> error + (mask \<times> nat)" and
  parse_diff_loop :: "string list \<Rightarrow> mask \<Rightarrow> nat \<Rightarrow> masks \<Rightarrow> mask \<Rightarrow> error + (mask \<times> nat)" and
  parse_xor :: "string list \<Rightarrow> nat \<Rightarrow> masks \<Rightarrow> mask \<Rightarrow> error + (mask \<times> nat)" and
  parse_xor_loop :: "string list \<Rightarrow> mask \<Rightarrow> nat \<Rightarrow> masks \<Rightarrow> mask \<Rightarrow> error + (mask \<times> nat)" and
  parse_and :: "string list \<Rightarrow> nat \<Rightarrow> masks \<Rightarrow> mask \<Rightarrow> error + (mask \<times> nat)" and
  parse_and_loop :: "string list \<Rightarrow> mask \<Rightarrow> nat \<Rightarrow> masks \<Rightarrow> mask \<Rightarrow> error + (mask \<times> nat)" and
  parse_not :: "string list \<Rightarrow> nat \<Rightarrow> masks \<Rightarrow> mask \<Rightarrow> error + (mask \<times> nat)" and
  parse_atom :: "string list \<Rightarrow> nat \<Rightarrow> masks \<Rightarrow> mask \<Rightarrow> error + (mask \<times> nat)"
where
  "parse_expression tokens pos masks universal = parse_or tokens pos masks universal"
| "parse_or tokens pos masks universal =
     (case parse_diff tokens pos masks universal of
        Inl e \<Rightarrow> Inl e
      | Inr (left, pos') \<Rightarrow> parse_or_loop tokens left pos' masks universal)"
| "parse_or_loop tokens left pos masks universal =
     (if pos < length tokens \<and> tokens ! pos = ''OR'' then
        (case parse_diff tokens (pos + 1) masks universal of
           Inl e \<Rightarrow> Inl e
         | Inr (right, pos') \<Rightarrow>
             (case np_or left right of
                Inl e \<Rightarrow> Inl e
              | Inr left' \<Rightarrow> parse_or_loop tokens left' pos' masks universal))
      else Inr (left, pos))"
| "parse_diff tokens pos masks universal =
     (case parse_xor tokens pos masks universal of
        Inl e \<Rightarrow> Inl e
      | Inr (left, pos') \<Rightarrow> parse_diff_loop tokens left pos' masks universal)"
| "parse_diff_loop tokens left pos masks universal =
     (if pos < length tokens \<and> tokens ! pos = ''DIFF'' then
        (case parse_xor tokens (pos + 1) masks universal of
           Inl e \<Rightarrow> Inl e
         | Inr (right, pos') \<Rightarrow>
             (case np_and left (np_invert right) of
                Inl e \<Rightarrow> Inl e
              | Inr left' \<Rightarrow> parse_diff_loop tokens left' pos' masks universal))
      else Inr (left, pos))"
| "parse_xor tokens pos masks universal =
     (case parse_and tokens pos masks universal of
        Inl e \<Rightarrow> Inl e
      | Inr (left, pos') \<Rightarrow> parse_xor_loop tokens left pos' masks universal)"
| "parse_xor_loop tokens left pos masks universal =
     (if pos < length tokens \<and> tokens ! pos = ''XOR'' then
        (case parse_and tokens (pos + 1) masks universal of
           Inl e \<Rightarrow> Inl e
         | Inr (right, pos') \<Rightarrow>
             (case np_xor left right of
                Inl e \<Rightarrow> Inl e
              | Inr left' \<Rightarrow> parse_xor_loop tokens left' pos' masks universal))
      else Inr (left, pos))"
| "parse_and tokens pos masks universal =
     (case parse_not tokens pos masks universal of
        Inl e \<Rightarrow> Inl e
      | Inr (left, pos') \<Rightarrow> parse_and_loop tokens left pos' masks universal)"
| "parse_and_loop tokens left pos masks universal =
     (if pos < length tokens \<and> tokens ! pos = ''AND'' then
        (case parse_not tokens (pos + 1) masks universal of
           Inl e \<Rightarrow> Inl e
         | Inr (right, pos') \<Rightarrow>
             (case np_and left right of
                Inl e \<Rightarrow> Inl e
              | Inr left' \<Rightarrow> parse_and_loop tokens left' pos' masks universal))
      else Inr (left, pos))"
| "parse_not tokens pos masks universal =
     (case parse_atom tokens pos masks universal of
        Inl e \<Rightarrow> Inl e
      | Inr (operand, pos') \<Rightarrow>
          (if pos' < length tokens \<and> tokens ! pos' = ''NOT'' then
             (case np_and universal (np_invert operand) of
                Inl e \<Rightarrow> Inl e
              | Inr r \<Rightarrow> Inr (r, pos' + 1))
           else Inr (operand, pos')))"
| "parse_atom tokens pos masks universal =
     (if pos \<ge> length tokens then Inl Unexpected_end_of_expression
      else if tokens ! pos = ''('' then
        (case parse_expression tokens (pos + 1) masks universal of
           Inl e \<Rightarrow> Inl e
         | Inr (result, pos') \<Rightarrow>
             (if pos' \<ge> length tokens \<or> tokens ! pos' \<noteq> '')'' then
                Inl Missing_closing_parenthesis
              else Inr (result, pos' + 1)))
      else
        (case masks (tokens ! pos) of
           Some m \<Rightarrow> Inr (m, pos + 1)
         | None \<Rightarrow> Inl (Unexpected_token (tokens ! pos))))"
  by pat_completeness auto

text \<open>
  Termination. The loops continue at the position returned by the call of the next tier, so
  the termination proof needs a fact about the results first: every tier that returns has
  moved the position forward. It is proved on the domain of the functions, before
  termination is known.
\<close>

abbreviation (input) parse_dom where
  "parse_dom \<equiv> parse_expression_parse_or_parse_or_loop_parse_diff_parse_diff_loop_parse_xor_parse_xor_loop_parse_and_parse_and_loop_parse_not_parse_atom_dom"

lemma parse_advances_dom:
  "parse_dom (Inl (Inl (Inl (tokens, pos, masks, universal)))) \<Longrightarrow>
     \<forall>v q. parse_expression tokens pos masks universal = Inr (v, q) \<longrightarrow> pos < q"
  "parse_dom (Inl (Inl (Inr (tokens, pos, masks, universal)))) \<Longrightarrow>
     \<forall>v q. parse_or tokens pos masks universal = Inr (v, q) \<longrightarrow> pos < q"
  "parse_dom (Inl (Inr (Inl (tokens, left, pos, masks, universal)))) \<Longrightarrow>
     \<forall>v q. parse_or_loop tokens left pos masks universal = Inr (v, q) \<longrightarrow> pos \<le> q"
  "parse_dom (Inl (Inr (Inr (Inl (tokens, pos, masks, universal))))) \<Longrightarrow>
     \<forall>v q. parse_diff tokens pos masks universal = Inr (v, q) \<longrightarrow> pos < q"
  "parse_dom (Inl (Inr (Inr (Inr (tokens, left, pos, masks, universal))))) \<Longrightarrow>
     \<forall>v q. parse_diff_loop tokens left pos masks universal = Inr (v, q) \<longrightarrow> pos \<le> q"
  "parse_dom (Inr (Inl (Inl (tokens, pos, masks, universal)))) \<Longrightarrow>
     \<forall>v q. parse_xor tokens pos masks universal = Inr (v, q) \<longrightarrow> pos < q"
  "parse_dom (Inr (Inl (Inr (Inl (tokens, left, pos, masks, universal))))) \<Longrightarrow>
     \<forall>v q. parse_xor_loop tokens left pos masks universal = Inr (v, q) \<longrightarrow> pos \<le> q"
  "parse_dom (Inr (Inl (Inr (Inr (tokens, pos, masks, universal))))) \<Longrightarrow>
     \<forall>v q. parse_and tokens pos masks universal = Inr (v, q) \<longrightarrow> pos < q"
  "parse_dom (Inr (Inr (Inl (tokens, left, pos, masks, universal)))) \<Longrightarrow>
     \<forall>v q. parse_and_loop tokens left pos masks universal = Inr (v, q) \<longrightarrow> pos \<le> q"
  "parse_dom (Inr (Inr (Inr (Inl (tokens, pos, masks, universal))))) \<Longrightarrow>
     \<forall>v q. parse_not tokens pos masks universal = Inr (v, q) \<longrightarrow> pos < q"
  "parse_dom (Inr (Inr (Inr (Inr (tokens, pos, masks, universal))))) \<Longrightarrow>
     \<forall>v q. parse_atom tokens pos masks universal = Inr (v, q) \<longrightarrow> pos < q"
proof (induct rule: parse_expression_parse_or_parse_or_loop_parse_diff_parse_diff_loop_parse_xor_parse_xor_loop_parse_and_parse_and_loop_parse_not_parse_atom.pinduct)
  case (1 tokens pos masks universal)
  then show ?case by (simp add: parse_expression.psimps)
next
  case (2 tokens pos masks universal)
  then show ?case by (fastforce simp: parse_or.psimps split: sum.splits prod.splits)
next
  case (3 tokens left pos masks universal)
  then show ?case
    by (fastforce simp: parse_or_loop.psimps split: sum.splits prod.splits if_splits)
next
  case (4 tokens pos masks universal)
  then show ?case by (fastforce simp: parse_diff.psimps split: sum.splits prod.splits)
next
  case (5 tokens left pos masks universal)
  then show ?case
    by (fastforce simp: parse_diff_loop.psimps split: sum.splits prod.splits if_splits)
next
  case (6 tokens pos masks universal)
  then show ?case by (fastforce simp: parse_xor.psimps split: sum.splits prod.splits)
next
  case (7 tokens left pos masks universal)
  then show ?case
    by (fastforce simp: parse_xor_loop.psimps split: sum.splits prod.splits if_splits)
next
  case (8 tokens pos masks universal)
  then show ?case by (fastforce simp: parse_and.psimps split: sum.splits prod.splits)
next
  case (9 tokens left pos masks universal)
  then show ?case
    by (fastforce simp: parse_and_loop.psimps split: sum.splits prod.splits if_splits)
next
  case (10 tokens pos masks universal)
  then show ?case
    by (fastforce simp: parse_not.psimps split: sum.splits prod.splits if_splits)
next
  case (11 tokens pos masks universal)
  then show ?case
    by (fastforce simp: parse_atom.psimps
        split: sum.splits prod.splits if_splits option.splits)
qed

termination parse_expression
  apply (relation "measure (\<lambda>x. case x of
      Inl (Inl (Inl (tokens, pos, masks, universal))) \<Rightarrow> 12 * (length tokens - pos) + 11
    | Inl (Inl (Inr (tokens, pos, masks, universal))) \<Rightarrow> 12 * (length tokens - pos) + 10
    | Inl (Inr (Inl (tokens, left, pos, masks, universal))) \<Rightarrow> 12 * (length tokens - pos)
    | Inl (Inr (Inr (Inl (tokens, pos, masks, universal)))) \<Rightarrow> 12 * (length tokens - pos) + 8
    | Inl (Inr (Inr (Inr (tokens, left, pos, masks, universal)))) \<Rightarrow> 12 * (length tokens - pos)
    | Inr (Inl (Inl (tokens, pos, masks, universal))) \<Rightarrow> 12 * (length tokens - pos) + 6
    | Inr (Inl (Inr (Inl (tokens, left, pos, masks, universal)))) \<Rightarrow> 12 * (length tokens - pos)
    | Inr (Inl (Inr (Inr (tokens, pos, masks, universal)))) \<Rightarrow> 12 * (length tokens - pos) + 4
    | Inr (Inr (Inl (tokens, left, pos, masks, universal))) \<Rightarrow> 12 * (length tokens - pos)
    | Inr (Inr (Inr (Inl (tokens, pos, masks, universal)))) \<Rightarrow> 12 * (length tokens - pos) + 2
    | Inr (Inr (Inr (Inr (tokens, pos, masks, universal)))) \<Rightarrow> 12 * (length tokens - pos) + 1)")
  apply (auto dest: parse_advances_dom [rule_format])
  done

declare parse_expression.simps [simp del] parse_or.simps [simp del]
  parse_or_loop.simps [simp del] parse_diff.simps [simp del] parse_diff_loop.simps [simp del]
  parse_xor.simps [simp del] parse_xor_loop.simps [simp del] parse_and.simps [simp del]
  parse_and_loop.simps [simp del] parse_not.simps [simp del] parse_atom.simps [simp del]

lemmas parse_simps =
  parse_expression.simps parse_or.simps parse_or_loop.simps parse_diff.simps
  parse_diff_loop.simps parse_xor.simps parse_xor_loop.simps parse_and.simps
  parse_and_loop.simps parse_not.simps parse_atom.simps

section \<open>The entry points\<close>

text \<open>
  Of the object \<^verbatim>\<open>self\<close> the evaluator reads the point grid \<^verbatim>\<open>self.points\<close> and,
  through \<^verbatim>\<open>points_in_circle\<close>, the circle of each set. The geometry is floating-point
  arithmetic and stays abstract: \<open>in_circle self key p\<close> stands for the test
  \<^verbatim>\<open>distance ** 2 <= radius ** 2\<close> of point \<open>p\<close> against the circle of the set
  \<open>key\<close>, so that \<^verbatim>\<open>points_in_circle\<close> yields one boolean for each point.
\<close>

record 'p visualizer =
  points :: "'p list"
  in_circle :: "string \<Rightarrow> 'p \<Rightarrow> bool"

definition points_in_circle :: "'p visualizer \<Rightarrow> string \<Rightarrow> mask" where
  "points_in_circle self key = map (in_circle self key) (points self)"

text \<open>
  \<^verbatim>\<open>_safe_evaluate\<close>: strip, tokenize, parse from position 0, and return the mask;
  the position that \<^verbatim>\<open>_parse_expression\<close> returns is dropped (\<^verbatim>\<open>result, _ = ...\<close>).
\<close>

definition safe_evaluate :: "'p visualizer \<Rightarrow> string \<Rightarrow> masks \<Rightarrow> error + mask" where
  "safe_evaluate self expr masks =
     (case tokenize (strip expr) of
        Inl e \<Rightarrow> Inl e
      | Inr tokens \<Rightarrow>
          (case parse_expression tokens 0 masks (np_ones (length (points self))) of
             Inl e \<Rightarrow> Inl e
           | Inr (result, pos) \<Rightarrow> Inr result))"

text \<open>
  \<^verbatim>\<open>evaluate_expression\<close>: the empty and the blank expression give the all-false
  mask at once; otherwise the masks of \<open>A\<close>, \<open>B\<close> and \<open>C\<close> are computed and the
  expression is evaluated, and the \<^verbatim>\<open>except Exception\<close> handler prints the error and
  returns the all-false mask. The second component of the result is the error printed, if
  any.
\<close>

definition evaluate_expression :: "'p visualizer \<Rightarrow> string \<Rightarrow> mask \<times> error option" where
  "evaluate_expression self expression =
     (if expression = [] \<or> strip expression = [] then
        (np_zeros (length (points self)), None)
      else
        (case safe_evaluate self expression
                [''A'' \<mapsto> points_in_circle self ''A'',
                 ''B'' \<mapsto> points_in_circle self ''B'',
                 ''C'' \<mapsto> points_in_circle self ''C'']
         of
           Inl e \<Rightarrow> (np_zeros (length (points self)), Some e)
         | Inr result \<Rightarrow> (result, None)))"

section \<open>Auxiliary notions for the statements and proofs\<close>

text \<open>
  The characters the tokenizer accepts: whitespace, the set names \<open>A\<close>, \<open>B\<close>, \<open>C\<close>
  and the seven operator and grouping symbols.
\<close>

definition recognized :: "char \<Rightarrow> bool" where
  "recognized c = (isspace c \<or> c \<in> set ''ABC.U&^-()'')"

text \<open>
  Two conditions on a position \<open>q\<close> of a token stream \<open>ts\<close> that is extended by
  \<open>rest\<close>. \<open>not_stops\<close>: the test for a postfix Not at \<open>q\<close> sees the same in \<open>ts\<close>
  and in \<open>ts @ rest\<close>. \<open>loop_stops ops\<close>: so does the test of a loop for the operators
  \<open>ops\<close>.
\<close>

definition not_stops :: "masks \<Rightarrow> string list \<Rightarrow> string list \<Rightarrow> nat \<Rightarrow> bool" where
  "not_stops masks ts rest q =
     (q < length ts \<or> rest = [] \<or> hd rest \<noteq> ''NOT'' \<or>
      (0 < q \<and> ts ! (q - 1) = ''NOT'' \<and> masks ''NOT'' = None))"

definition loop_stops :: "string list \<Rightarrow> string list \<Rightarrow> string list \<Rightarrow> nat \<Rightarrow> bool" where
  "loop_stops ops ts rest q = (q < length ts \<or> rest = [] \<or> hd rest \<notin> set ops)"

text \<open>
  The invariant of the data model: every vector of the membership map has the length of
  \<open>universal\<close>, one entry for each point.
\<close>

definition uniform :: "masks \<Rightarrow> mask \<Rightarrow> bool" where
  "uniform masks universal = (\<forall>k m. masks k = Some m \<longrightarrow> length m = length universal)"

text \<open>
  What the parse of the first \<open>n\<close> tokens of a stream can be, given that the parse of the
  whole stream returns \<open>(v, q)\<close>: it fails for want of a token, or it consumes all \<open>n\<close>
  tokens, or it is the parse of the whole stream, which ended before \<open>n\<close>.
\<close>

definition cut_outcome :: "error + (mask \<times> nat) \<Rightarrow> nat \<Rightarrow> mask \<Rightarrow> nat \<Rightarrow> bool" where
  "cut_outcome r n v q =
     (r = Inl Unexpected_end_of_expression \<or> r = Inl Missing_closing_parenthesis \<or>
      (\<exists>v'. r = Inr (v', n)) \<or> (q < n \<and> r = Inr (v, q)))"

text \<open>A parse result with its position moved one token to the right.\<close>

definition shifted :: "error + (mask \<times> nat) \<Rightarrow> error + (mask \<times> nat)" where
  "shifted r = (case r of Inl e \<Rightarrow> Inl e | Inr (v, q) \<Rightarrow> Inr (v, Suc q))"

section \<open>Facts about the numpy operators\<close>

lemma np_or_same_length: "length xs = length ys \<Longrightarrow> np_or xs ys = Inr (map2 (\<or>) xs ys)"
  by (simp add: np_or_def np_binop_def)

lemma np_and_same_length: "length xs = length ys \<Longrightarrow> np_and xs ys = Inr (map2 (\<and>) xs ys)"
  by (simp add: np_and_def np_binop_def)

lemma np_xor_same_length: "length xs = length ys \<Longrightarrow> np_xor xs ys = Inr (map2 (\<noteq>) xs ys)"
  by (simp add: np_xor_def np_binop_def)

lemma np_diff_same_length:
  "length xs = length ys \<Longrightarrow>
     np_and xs (np_invert ys) = Inr (map2 (\<lambda>x y. x \<and> \<not> y) xs ys)"
  by (simp add: np_and_def np_binop_def np_invert_def zip_map2 o_def split_def)

lemma np_complement:
  "length xs = n \<Longrightarrow> np_and (np_ones n) (np_invert xs) = Inr (map Not xs)"
  apply (simp add: np_and_def np_binop_def np_invert_def np_ones_def)
  apply (rule nth_equalityI)
   apply simp_all
  done

lemma np_results_length:
  assumes "length xs = n" and "length ys = n"
  shows "\<exists>zs. np_or xs ys = Inr zs \<and> length zs = n"
    and "\<exists>zs. np_and xs ys = Inr zs \<and> length zs = n"
    and "\<exists>zs. np_xor xs ys = Inr zs \<and> length zs = n"
    and "\<exists>zs. np_and xs (np_invert ys) = Inr zs \<and> length zs = n"
  using assms by (simp_all add: np_or_def np_and_def np_xor_def np_invert_def np_binop_def)

section \<open>Token streams of the formulas used below\<close>

lemma tokens_A:
  "tokenize (strip ''A'') = Inr [''A'']"
  by code_simp

lemma tokens_A_not:
  "tokenize (strip ''A.'') = Inr [''A'', ''NOT'']"
  by code_simp

lemma tokens_A_not_not:
  "tokenize (strip ''A..'') = Inr [''A'', ''NOT'', ''NOT'']"
  by code_simp

lemma tokens_A_or_B:
  "tokenize (strip ''A U B'') = Inr [''A'', ''OR'', ''B'']"
  by code_simp

lemma tokens_A_and_B:
  "tokenize (strip ''A & B'') = Inr [''A'', ''AND'', ''B'']"
  by code_simp

lemma tokens_A_xor_B:
  "tokenize (strip ''A ^ B'') = Inr [''A'', ''XOR'', ''B'']"
  by code_simp

lemma tokens_A_diff_B:
  "tokenize (strip ''A - B'') = Inr [''A'', ''DIFF'', ''B'']"
  by code_simp

lemma tokens_A_or_B_diff_C:
  "tokenize (strip ''A U B - C'') = Inr [''A'', ''OR'', ''B'', ''DIFF'', ''C'']"
  by code_simp

lemma tokens_A_diff_B_or_C:
  "tokenize (strip ''A - B U C'') = Inr [''A'', ''DIFF'', ''B'', ''OR'', ''C'']"
  by code_simp

lemma tokens_A_diff_B_xor_C:
  "tokenize (strip ''A - B ^ C'') = Inr [''A'', ''DIFF'', ''B'', ''XOR'', ''C'']"
  by code_simp

lemma tokens_A_xor_B_diff_C:
  "tokenize (strip ''A ^ B - C'') = Inr [''A'', ''XOR'', ''B'', ''DIFF'', ''C'']"
  by code_simp

lemma tokens_A_xor_B_and_C:
  "tokenize (strip ''A ^ B & C'') = Inr [''A'', ''XOR'', ''B'', ''AND'', ''C'']"
  by code_simp

lemma tokens_A_and_B_xor_C:
  "tokenize (strip ''A & B ^ C'') = Inr [''A'', ''AND'', ''B'', ''XOR'', ''C'']"
  by code_simp

lemma tokens_A_and_B_not:
  "tokenize (strip ''A & B.'') = Inr [''A'', ''AND'', ''B'', ''NOT'']"
  by code_simp

lemma tokens_paren_or_and:
  "tokenize (strip ''(A U B) & C'') = Inr [''('', ''A'', ''OR'', ''B'', '')'', ''AND'', ''C'']"
  by code_simp

lemma tokens_or_paren_and:
  "tokenize (strip ''A U (B & C)'') = Inr [''A'', ''OR'', ''('', ''B'', ''AND'', ''C'', '')'']"
  by code_simp

lemma tokens_B:
  "tokenize (strip ''B'') = Inr [''B'']"
  by code_simp

lemma tokens_C:
  "tokenize (strip ''C'') = Inr [''C'']"
  by code_simp

lemma tokens_U:
  "tokenize (strip ''U'') = Inr [''OR'']"
  by code_simp

lemma tokens_A_B:
  "tokenize (strip ''A B'') = Inr ([''A''] @ [''B''])"
  by code_simp

lemma tokens_A_close:
  "tokenize (strip ''A ) '') = Inr ([''A''] @ ['')''])"
  by code_simp

lemma tokens_A_not_not_split:
  "tokenize (strip ''A..'') = Inr ([''A'', ''NOT''] @ [''NOT''])"
  by code_simp

lemma tokens_A_or:
  "tokenize (strip ''A U'') = Inr ([''A''] @ [''OR''])"
  by code_simp

lemma tokens_open_A:
  "tokenize (strip ''(A'') = Inr (''('' # [''A''])"
  by code_simp

lemma tokens_A_or_B_and:
  "tokenize (strip ''A U B &'') = Inr ([''A'', ''OR'', ''B''] @ [''AND''])"
  by code_simp

lemma tokens_open_A_or_B:
  "tokenize (strip ''(A U B'') = Inr (''('' # [''A'', ''OR'', ''B''])"
  by code_simp

lemma tokens_set_name:
  "x \<in> set ''ABC'' \<Longrightarrow> tokenize (strip [x]) = Inr [[x]]"
  using tokens_A tokens_B tokens_C by auto

section \<open>Facts about the parser\<close>

subsection \<open>One iteration of each loop\<close>

lemmas parse_induct =
  parse_expression_parse_or_parse_or_loop_parse_diff_parse_diff_loop_parse_xor_parse_xor_loop_parse_and_parse_and_loop_parse_not_parse_atom.induct

lemma parse_or_loop_step:
  "pos < length tokens \<Longrightarrow> tokens ! pos = ''OR'' \<Longrightarrow>
     parse_or_loop tokens left pos masks universal =
       (case parse_diff tokens (pos + 1) masks universal of
          Inl e \<Rightarrow> Inl e
        | Inr (right, pos') \<Rightarrow>
            (case np_or left right of
               Inl e \<Rightarrow> Inl e
             | Inr left' \<Rightarrow> parse_or_loop tokens left' pos' masks universal))"
  by (subst parse_or_loop.simps) simp

lemma parse_or_loop_exit:
  "\<not> (pos < length tokens \<and> tokens ! pos = ''OR'') \<Longrightarrow>
     parse_or_loop tokens left pos masks universal = Inr (left, pos)"
  by (subst parse_or_loop.simps) auto

lemma parse_diff_loop_step:
  "pos < length tokens \<Longrightarrow> tokens ! pos = ''DIFF'' \<Longrightarrow>
     parse_diff_loop tokens left pos masks universal =
       (case parse_xor tokens (pos + 1) masks universal of
          Inl e \<Rightarrow> Inl e
        | Inr (right, pos') \<Rightarrow>
            (case np_and left (np_invert right) of
               Inl e \<Rightarrow> Inl e
             | Inr left' \<Rightarrow> parse_diff_loop tokens left' pos' masks universal))"
  by (subst parse_diff_loop.simps) simp

lemma parse_diff_loop_exit:
  "\<not> (pos < length tokens \<and> tokens ! pos = ''DIFF'') \<Longrightarrow>
     parse_diff_loop tokens left pos masks universal = Inr (left, pos)"
  by (subst parse_diff_loop.simps) auto

lemma parse_xor_loop_step:
  "pos < length tokens \<Longrightarrow> tokens ! pos = ''XOR'' \<Longrightarrow>
     parse_xor_loop tokens left pos masks universal =
       (case parse_and tokens (pos + 1) masks universal of
          Inl e \<Rightarrow> Inl e
        | Inr (right, pos') \<Rightarrow>
            (case np_xor left right of
               Inl e \<Rightarrow> Inl e
             | Inr left' \<Rightarrow> parse_xor_loop tokens left' pos' masks universal))"
  by (subst parse_xor_loop.simps) simp

lemma parse_xor_loop_exit:
  "\<not> (pos < length tokens \<and> tokens ! pos = ''XOR'') \<Longrightarrow>
     parse_xor_loop tokens left pos masks universal = Inr (left, pos)"
  by (subst parse_xor_loop.simps) auto

lemma parse_and_loop_step:
  "pos < length tokens \<Longrightarrow> tokens ! pos = ''AND'' \<Longrightarrow>
     parse_and_loop tokens left pos masks universal =
       (case parse_not tokens (pos + 1) masks universal of
          Inl e \<Rightarrow> Inl e
        | Inr (right, pos') \<Rightarrow>
            (case np_and left right of
               Inl e \<Rightarrow> Inl e
             | Inr left' \<Rightarrow> parse_and_loop tokens left' pos' masks universal))"
  by (subst parse_and_loop.simps) simp

lemma parse_and_loop_exit:
  "\<not> (pos < length tokens \<and> tokens ! pos = ''AND'') \<Longrightarrow>
     parse_and_loop tokens left pos masks universal = Inr (left, pos)"
  by (subst parse_and_loop.simps) auto

text \<open>Every tier that returns has consumed at least one token and stays within the stream.\<close>

lemma parse_bounds:
  "\<forall>v q. parse_expression tokens pos masks universal = Inr (v, q) \<longrightarrow>
     pos < q \<and> q \<le> length tokens"
  "\<forall>v q. parse_or tokens pos masks universal = Inr (v, q) \<longrightarrow> pos < q \<and> q \<le> length tokens"
  "\<forall>v q. parse_or_loop tokens left pos masks universal = Inr (v, q) \<longrightarrow>
     pos \<le> q \<and> (pos \<le> length tokens \<longrightarrow> q \<le> length tokens)"
  "\<forall>v q. parse_diff tokens pos masks universal = Inr (v, q) \<longrightarrow> pos < q \<and> q \<le> length tokens"
  "\<forall>v q. parse_diff_loop tokens left pos masks universal = Inr (v, q) \<longrightarrow>
     pos \<le> q \<and> (pos \<le> length tokens \<longrightarrow> q \<le> length tokens)"
  "\<forall>v q. parse_xor tokens pos masks universal = Inr (v, q) \<longrightarrow> pos < q \<and> q \<le> length tokens"
  "\<forall>v q. parse_xor_loop tokens left pos masks universal = Inr (v, q) \<longrightarrow>
     pos \<le> q \<and> (pos \<le> length tokens \<longrightarrow> q \<le> length tokens)"
  "\<forall>v q. parse_and tokens pos masks universal = Inr (v, q) \<longrightarrow> pos < q \<and> q \<le> length tokens"
  "\<forall>v q. parse_and_loop tokens left pos masks universal = Inr (v, q) \<longrightarrow>
     pos \<le> q \<and> (pos \<le> length tokens \<longrightarrow> q \<le> length tokens)"
  "\<forall>v q. parse_not tokens pos masks universal = Inr (v, q) \<longrightarrow> pos < q \<and> q \<le> length tokens"
  "\<forall>v q. parse_atom tokens pos masks universal = Inr (v, q) \<longrightarrow> pos < q \<and> q \<le> length tokens"
proof (induct tokens pos masks universal and tokens pos masks universal and tokens left pos masks universal and tokens pos masks universal and tokens left pos masks universal and tokens pos masks universal and tokens left pos masks universal and tokens pos masks universal and tokens left pos masks universal and tokens pos masks universal and tokens pos masks universal
    rule: parse_induct)
  case (1 tokens pos masks universal)
  then show ?case by (simp add: parse_expression.simps)
next
  case (2 tokens pos masks universal)
  then show ?case
    by (simp add: parse_or.simps split: sum.splits prod.splits) fastforce
next
  case (3 tokens left pos masks universal)
  show ?case
  proof (cases "pos < length tokens \<and> tokens ! pos = ''OR''")
    case True
    with 3 show ?thesis
      by (simp add: parse_or_loop_step split: sum.splits prod.splits) fastforce
  next
    case False
    then show ?thesis
      by (simp add: parse_or_loop_exit)
  qed
next
  case (4 tokens pos masks universal)
  then show ?case
    by (simp add: parse_diff.simps split: sum.splits prod.splits) fastforce
next
  case (5 tokens left pos masks universal)
  show ?case
  proof (cases "pos < length tokens \<and> tokens ! pos = ''DIFF''")
    case True
    with 5 show ?thesis
      by (simp add: parse_diff_loop_step split: sum.splits prod.splits) fastforce
  next
    case False
    then show ?thesis
      by (simp add: parse_diff_loop_exit)
  qed
next
  case (6 tokens pos masks universal)
  then show ?case
    by (simp add: parse_xor.simps split: sum.splits prod.splits) fastforce
next
  case (7 tokens left pos masks universal)
  show ?case
  proof (cases "pos < length tokens \<and> tokens ! pos = ''XOR''")
    case True
    with 7 show ?thesis
      by (simp add: parse_xor_loop_step split: sum.splits prod.splits) fastforce
  next
    case False
    then show ?thesis
      by (simp add: parse_xor_loop_exit)
  qed
next
  case (8 tokens pos masks universal)
  then show ?case
    by (simp add: parse_and.simps split: sum.splits prod.splits) fastforce
next
  case (9 tokens left pos masks universal)
  show ?case
  proof (cases "pos < length tokens \<and> tokens ! pos = ''AND''")
    case True
    with 9 show ?thesis
      by (simp add: parse_and_loop_step split: sum.splits prod.splits) fastforce
  next
    case False
    then show ?thesis
      by (simp add: parse_and_loop_exit)
  qed
next
  case (10 tokens pos masks universal)
  then show ?case
    by (simp add: parse_not.simps split: sum.splits prod.splits) fastforce
next
  case (11 tokens pos masks universal)
  then show ?case
    by (simp add: parse_atom.simps split: sum.splits prod.splits option.splits) fastforce
qed

subsection \<open>Extending the token stream at its end\<close>

text \<open>
  An atom that was parsed ends with a closing parenthesis or with a token of the membership
  map.
\<close>

lemma parse_atom_last_token:
  assumes "parse_atom tokens pos masks universal = Inr (v, q)"
  shows "0 < q \<and> (tokens ! (q - 1) = '')'' \<or> masks (tokens ! (q - 1)) \<noteq> None)"
  using assms
  by (simp add: parse_atom.simps split: if_splits sum.splits prod.splits option.splits) auto

text \<open>
  A parse of \<open>ts\<close> that returns is also the parse of \<open>ts @ rest\<close>, as long as no test
  of the parse at the end of \<open>ts\<close> can see a token of \<open>rest\<close> that it would consume.
\<close>

lemma parse_append:
  "\<forall>v q. parse_expression ts pos masks universal = Inr (v, q) \<longrightarrow>
     not_stops masks ts rest q \<longrightarrow> loop_stops [''AND'', ''XOR'', ''DIFF'', ''OR''] ts rest q \<longrightarrow>
     parse_expression (ts @ rest) pos masks universal = Inr (v, q)"
  "\<forall>v q. parse_or ts pos masks universal = Inr (v, q) \<longrightarrow>
     not_stops masks ts rest q \<longrightarrow> loop_stops [''AND'', ''XOR'', ''DIFF'', ''OR''] ts rest q \<longrightarrow>
     parse_or (ts @ rest) pos masks universal = Inr (v, q)"
  "\<forall>v q. parse_or_loop ts left pos masks universal = Inr (v, q) \<longrightarrow> pos \<le> length ts \<longrightarrow>
     not_stops masks ts rest q \<longrightarrow> loop_stops [''AND'', ''XOR'', ''DIFF'', ''OR''] ts rest q \<longrightarrow>
     parse_or_loop (ts @ rest) left pos masks universal = Inr (v, q)"
  "\<forall>v q. parse_diff ts pos masks universal = Inr (v, q) \<longrightarrow>
     not_stops masks ts rest q \<longrightarrow> loop_stops [''AND'', ''XOR'', ''DIFF''] ts rest q \<longrightarrow>
     parse_diff (ts @ rest) pos masks universal = Inr (v, q)"
  "\<forall>v q. parse_diff_loop ts left pos masks universal = Inr (v, q) \<longrightarrow> pos \<le> length ts \<longrightarrow>
     not_stops masks ts rest q \<longrightarrow> loop_stops [''AND'', ''XOR'', ''DIFF''] ts rest q \<longrightarrow>
     parse_diff_loop (ts @ rest) left pos masks universal = Inr (v, q)"
  "\<forall>v q. parse_xor ts pos masks universal = Inr (v, q) \<longrightarrow>
     not_stops masks ts rest q \<longrightarrow> loop_stops [''AND'', ''XOR''] ts rest q \<longrightarrow>
     parse_xor (ts @ rest) pos masks universal = Inr (v, q)"
  "\<forall>v q. parse_xor_loop ts left pos masks universal = Inr (v, q) \<longrightarrow> pos \<le> length ts \<longrightarrow>
     not_stops masks ts rest q \<longrightarrow> loop_stops [''AND'', ''XOR''] ts rest q \<longrightarrow>
     parse_xor_loop (ts @ rest) left pos masks universal = Inr (v, q)"
  "\<forall>v q. parse_and ts pos masks universal = Inr (v, q) \<longrightarrow>
     not_stops masks ts rest q \<longrightarrow> loop_stops [''AND''] ts rest q \<longrightarrow>
     parse_and (ts @ rest) pos masks universal = Inr (v, q)"
  "\<forall>v q. parse_and_loop ts left pos masks universal = Inr (v, q) \<longrightarrow> pos \<le> length ts \<longrightarrow>
     not_stops masks ts rest q \<longrightarrow> loop_stops [''AND''] ts rest q \<longrightarrow>
     parse_and_loop (ts @ rest) left pos masks universal = Inr (v, q)"
  "\<forall>v q. parse_not ts pos masks universal = Inr (v, q) \<longrightarrow>
     not_stops masks ts rest q \<longrightarrow>
     parse_not (ts @ rest) pos masks universal = Inr (v, q)"
  "\<forall>v q. parse_atom ts pos masks universal = Inr (v, q) \<longrightarrow>
     parse_atom (ts @ rest) pos masks universal = Inr (v, q)"
proof (induct ts pos masks universal and ts pos masks universal and ts left pos masks universal
    and ts pos masks universal and ts left pos masks universal
    and ts pos masks universal and ts left pos masks universal
    and ts pos masks universal and ts left pos masks universal
    and ts pos masks universal and ts pos masks universal
    rule: parse_induct)
  case (1 ts pos masks universal)
  then show ?case by (simp add: parse_expression.simps)
next
  case (2 ts pos masks universal)
  show ?case
  proof (intro allI impI)
    fix v q
    assume res: "parse_or ts pos masks universal = Inr (v, q)"
      and n: "not_stops masks ts rest q"
      and s: "loop_stops [''AND'', ''XOR'', ''DIFF'', ''OR''] ts rest q"
    from res obtain left p' where
      r1: "parse_diff ts pos masks universal = Inr (left, p')" and
      r2: "parse_or_loop ts left p' masks universal = Inr (v, q)"
      by (auto simp: parse_or.simps split: sum.splits prod.splits)
    from r1 have b: "p' \<le> length ts" using parse_bounds(4) by blast
    have "q = p'" if "\<not> p' < length ts"
      using that r2 by (simp add: parse_or_loop_exit)
    with n s have n': "not_stops masks ts rest p'" and
      s': "loop_stops [''AND'', ''XOR'', ''DIFF''] ts rest p'"
      by (auto simp: not_stops_def loop_stops_def)
    from "2.hyps"(1) r1 n' s' have
      "parse_diff (ts @ rest) pos masks universal = Inr (left, p')" by blast
    moreover from "2.hyps"(2) [OF r1 refl] r2 b n s have
      "parse_or_loop (ts @ rest) left p' masks universal = Inr (v, q)" by blast
    ultimately show "parse_or (ts @ rest) pos masks universal = Inr (v, q)"
      by (simp add: parse_or.simps)
  qed
next
  case (3 ts left pos masks universal)
  show ?case
  proof (intro allI impI)
    fix v q
    assume res: "parse_or_loop ts left pos masks universal = Inr (v, q)"
      and le: "pos \<le> length ts"
      and n: "not_stops masks ts rest q"
      and s: "loop_stops [''AND'', ''XOR'', ''DIFF'', ''OR''] ts rest q"
    show "parse_or_loop (ts @ rest) left pos masks universal = Inr (v, q)"
    proof (cases "pos < length ts \<and> ts ! pos = ''OR''")
      case True
      with res obtain right p' left' where
        r1: "parse_diff ts (pos + 1) masks universal = Inr (right, p')" and
        r2: "np_or left right = Inr left'" and
        r3: "parse_or_loop ts left' p' masks universal = Inr (v, q)"
        by (auto simp: parse_or_loop_step split: sum.splits prod.splits)
      from r1 have b: "p' \<le> length ts" using parse_bounds(4) by blast
      have "q = p'" if "\<not> p' < length ts"
        using that r3 by (simp add: parse_or_loop_exit)
      with n s have n': "not_stops masks ts rest p'" and
        s': "loop_stops [''AND'', ''XOR'', ''DIFF''] ts rest p'"
        by (auto simp: not_stops_def loop_stops_def)
      from "3.hyps"(1) True r1 n' s' have
        "parse_diff (ts @ rest) (pos + 1) masks universal = Inr (right, p')" by blast
      moreover from "3.hyps"(2) [OF True r1 refl r2] r3 b n s have
        "parse_or_loop (ts @ rest) left' p' masks universal = Inr (v, q)" by blast
      ultimately show ?thesis
        using True r2 by (simp add: parse_or_loop_step nth_append)
    next
      case False
      with res have q: "v = left" "q = pos"
        by (simp_all add: parse_or_loop_exit)
      from False le s q have "\<not> (pos < length (ts @ rest) \<and> (ts @ rest) ! pos = ''OR'')"
        by (cases "pos < length ts") (auto simp: nth_append loop_stops_def hd_conv_nth)
      with q show ?thesis by (simp add: parse_or_loop_exit)
    qed
  qed
next
  case (4 ts pos masks universal)
  show ?case
  proof (intro allI impI)
    fix v q
    assume res: "parse_diff ts pos masks universal = Inr (v, q)"
      and n: "not_stops masks ts rest q"
      and s: "loop_stops [''AND'', ''XOR'', ''DIFF''] ts rest q"
    from res obtain left p' where
      r1: "parse_xor ts pos masks universal = Inr (left, p')" and
      r2: "parse_diff_loop ts left p' masks universal = Inr (v, q)"
      by (auto simp: parse_diff.simps split: sum.splits prod.splits)
    from r1 have b: "p' \<le> length ts" using parse_bounds(6) by blast
    have "q = p'" if "\<not> p' < length ts"
      using that r2 by (simp add: parse_diff_loop_exit)
    with n s have n': "not_stops masks ts rest p'" and
      s': "loop_stops [''AND'', ''XOR''] ts rest p'"
      by (auto simp: not_stops_def loop_stops_def)
    from "4.hyps"(1) r1 n' s' have
      "parse_xor (ts @ rest) pos masks universal = Inr (left, p')" by blast
    moreover from "4.hyps"(2) [OF r1 refl] r2 b n s have
      "parse_diff_loop (ts @ rest) left p' masks universal = Inr (v, q)" by blast
    ultimately show "parse_diff (ts @ rest) pos masks universal = Inr (v, q)"
      by (simp add: parse_diff.simps)
  qed
next
  case (5 ts left pos masks universal)
  show ?case
  proof (intro allI impI)
    fix v q
    assume res: "parse_diff_loop ts left pos masks universal = Inr (v, q)"
      and le: "pos \<le> length ts"
      and n: "not_stops masks ts rest q"
      and s: "loop_stops [''AND'', ''XOR'', ''DIFF''] ts rest q"
    show "parse_diff_loop (ts @ rest) left pos masks universal = Inr (v, q)"
    proof (cases "pos < length ts \<and> ts ! pos = ''DIFF''")
      case True
      with res obtain right p' left' where
        r1: "parse_xor ts (pos + 1) masks universal = Inr (right, p')" and
        r2: "np_and left (np_invert right) = Inr left'" and
        r3: "parse_diff_loop ts left' p' masks universal = Inr (v, q)"
        by (auto simp: parse_diff_loop_step split: sum.splits prod.splits)
      from r1 have b: "p' \<le> length ts" using parse_bounds(6) by blast
      have "q = p'" if "\<not> p' < length ts"
        using that r3 by (simp add: parse_diff_loop_exit)
      with n s have n': "not_stops masks ts rest p'" and
        s': "loop_stops [''AND'', ''XOR''] ts rest p'"
        by (auto simp: not_stops_def loop_stops_def)
      from "5.hyps"(1) True r1 n' s' have
        "parse_xor (ts @ rest) (pos + 1) masks universal = Inr (right, p')" by blast
      moreover from "5.hyps"(2) [OF True r1 refl r2] r3 b n s have
        "parse_diff_loop (ts @ rest) left' p' masks universal = Inr (v, q)" by blast
      ultimately show ?thesis
        using True r2 by (simp add: parse_diff_loop_step nth_append)
    next
      case False
      with res have q: "v = left" "q = pos"
        by (simp_all add: parse_diff_loop_exit)
      from False le s q have "\<not> (pos < length (ts @ rest) \<and> (ts @ rest) ! pos = ''DIFF'')"
        by (cases "pos < length ts") (auto simp: nth_append loop_stops_def hd_conv_nth)
      with q show ?thesis by (simp add: parse_diff_loop_exit)
    qed
  qed
next
  case (6 ts pos masks universal)
  show ?case
  proof (intro allI impI)
    fix v q
    assume res: "parse_xor ts pos masks universal = Inr (v, q)"
      and n: "not_stops masks ts rest q"
      and s: "loop_stops [''AND'', ''XOR''] ts rest q"
    from res obtain left p' where
      r1: "parse_and ts pos masks universal = Inr (left, p')" and
      r2: "parse_xor_loop ts left p' masks universal = Inr (v, q)"
      by (auto simp: parse_xor.simps split: sum.splits prod.splits)
    from r1 have b: "p' \<le> length ts" using parse_bounds(8) by blast
    have "q = p'" if "\<not> p' < length ts"
      using that r2 by (simp add: parse_xor_loop_exit)
    with n s have n': "not_stops masks ts rest p'" and
      s': "loop_stops [''AND''] ts rest p'"
      by (auto simp: not_stops_def loop_stops_def)
    from "6.hyps"(1) r1 n' s' have
      "parse_and (ts @ rest) pos masks universal = Inr (left, p')" by blast
    moreover from "6.hyps"(2) [OF r1 refl] r2 b n s have
      "parse_xor_loop (ts @ rest) left p' masks universal = Inr (v, q)" by blast
    ultimately show "parse_xor (ts @ rest) pos masks universal = Inr (v, q)"
      by (simp add: parse_xor.simps)
  qed
next
  case (7 ts left pos masks universal)
  show ?case
  proof (intro allI impI)
    fix v q
    assume res: "parse_xor_loop ts left pos masks universal = Inr (v, q)"
      and le: "pos \<le> length ts"
      and n: "not_stops masks ts rest q"
      and s: "loop_stops [''AND'', ''XOR''] ts rest q"
    show "parse_xor_loop (ts @ rest) left pos masks universal = Inr (v, q)"
    proof (cases "pos < length ts \<and> ts ! pos = ''XOR''")
      case True
      with res obtain right p' left' where
        r1: "parse_and ts (pos + 1) masks universal = Inr (right, p')" and
        r2: "np_xor left right = Inr left'" and
        r3: "parse_xor_loop ts left' p' masks universal = Inr (v, q)"
        by (auto simp: parse_xor_loop_step split: sum.splits prod.splits)
      from r1 have b: "p' \<le> length ts" using parse_bounds(8) by blast
      have "q = p'" if "\<not> p' < length ts"
        using that r3 by (simp add: parse_xor_loop_exit)
      with n s have n': "not_stops masks ts rest p'" and
        s': "loop_stops [''AND''] ts rest p'"
        by (auto simp: not_stops_def loop_stops_def)
      from "7.hyps"(1) True r1 n' s' have
        "parse_and (ts @ rest) (pos + 1) masks universal = Inr (right, p')" by blast
      moreover from "7.hyps"(2) [OF True r1 refl r2] r3 b n s have
        "parse_xor_loop (ts @ rest) left' p' masks universal = Inr (v, q)" by blast
      ultimately show ?thesis
        using True r2 by (simp add: parse_xor_loop_step nth_append)
    next
      case False
      with res have q: "v = left" "q = pos"
        by (simp_all add: parse_xor_loop_exit)
      from False le s q have "\<not> (pos < length (ts @ rest) \<and> (ts @ rest) ! pos = ''XOR'')"
        by (cases "pos < length ts") (auto simp: nth_append loop_stops_def hd_conv_nth)
      with q show ?thesis by (simp add: parse_xor_loop_exit)
    qed
  qed
next
  case (8 ts pos masks universal)
  show ?case
  proof (intro allI impI)
    fix v q
    assume res: "parse_and ts pos masks universal = Inr (v, q)"
      and n: "not_stops masks ts rest q"
      and s: "loop_stops [''AND''] ts rest q"
    from res obtain left p' where
      r1: "parse_not ts pos masks universal = Inr (left, p')" and
      r2: "parse_and_loop ts left p' masks universal = Inr (v, q)"
      by (auto simp: parse_and.simps split: sum.splits prod.splits)
    from r1 have b: "p' \<le> length ts" using parse_bounds(10) by blast
    have "q = p'" if "\<not> p' < length ts"
      using that r2 by (simp add: parse_and_loop_exit)
    with n s have n': "not_stops masks ts rest p'"
      by (auto simp: not_stops_def loop_stops_def)
    from "8.hyps"(1) r1 n' have
      "parse_not (ts @ rest) pos masks universal = Inr (left, p')" by blast
    moreover from "8.hyps"(2) [OF r1 refl] r2 b n s have
      "parse_and_loop (ts @ rest) left p' masks universal = Inr (v, q)" by blast
    ultimately show "parse_and (ts @ rest) pos masks universal = Inr (v, q)"
      by (simp add: parse_and.simps)
  qed
next
  case (9 ts left pos masks universal)
  show ?case
  proof (intro allI impI)
    fix v q
    assume res: "parse_and_loop ts left pos masks universal = Inr (v, q)"
      and le: "pos \<le> length ts"
      and n: "not_stops masks ts rest q"
      and s: "loop_stops [''AND''] ts rest q"
    show "parse_and_loop (ts @ rest) left pos masks universal = Inr (v, q)"
    proof (cases "pos < length ts \<and> ts ! pos = ''AND''")
      case True
      with res obtain right p' left' where
        r1: "parse_not ts (pos + 1) masks universal = Inr (right, p')" and
        r2: "np_and left right = Inr left'" and
        r3: "parse_and_loop ts left' p' masks universal = Inr (v, q)"
        by (auto simp: parse_and_loop_step split: sum.splits prod.splits)
      from r1 have b: "p' \<le> length ts" using parse_bounds(10) by blast
      have "q = p'" if "\<not> p' < length ts"
        using that r3 by (simp add: parse_and_loop_exit)
      with n s have n': "not_stops masks ts rest p'"
        by (auto simp: not_stops_def loop_stops_def)
      from "9.hyps"(1) True r1 n' have
        "parse_not (ts @ rest) (pos + 1) masks universal = Inr (right, p')" by blast
      moreover from "9.hyps"(2) [OF True r1 refl r2] r3 b n s have
        "parse_and_loop (ts @ rest) left' p' masks universal = Inr (v, q)" by blast
      ultimately show ?thesis
        using True r2 by (simp add: parse_and_loop_step nth_append)
    next
      case False
      with res have q: "v = left" "q = pos"
        by (simp_all add: parse_and_loop_exit)
      from False le s q have "\<not> (pos < length (ts @ rest) \<and> (ts @ rest) ! pos = ''AND'')"
        by (cases "pos < length ts") (auto simp: nth_append loop_stops_def hd_conv_nth)
      with q show ?thesis by (simp add: parse_and_loop_exit)
    qed
  qed
next
  case (10 ts pos masks universal)
  show ?case
  proof (intro allI impI)
    fix v q
    assume res: "parse_not ts pos masks universal = Inr (v, q)"
      and n: "not_stops masks ts rest q"
    from res obtain operand p' where
      r1: "parse_atom ts pos masks universal = Inr (operand, p')"
      by (auto simp: parse_not.simps split: sum.splits prod.splits)
    from r1 have b: "p' \<le> length ts" using parse_bounds(11) by blast
    from "10.hyps" r1 have a: "parse_atom (ts @ rest) pos masks universal = Inr (operand, p')"
      by blast
    show "parse_not (ts @ rest) pos masks universal = Inr (v, q)"
    proof (cases "p' < length ts \<and> ts ! p' = ''NOT''")
      case True
      with res r1 a show ?thesis
        by (simp add: parse_not.simps nth_append)
    next
      case False
      with res r1 have q: "v = operand" "q = p'"
        by (simp_all add: parse_not.simps)
      from parse_atom_last_token [OF r1] have
        "0 < p' \<and> (ts ! (p' - 1) = '')'' \<or> masks (ts ! (p' - 1)) \<noteq> None)" .
      with False b n q have "\<not> (p' < length (ts @ rest) \<and> (ts @ rest) ! p' = ''NOT'')"
        by (cases "p' < length ts") (auto simp: nth_append not_stops_def hd_conv_nth)
      with a q show ?thesis by (auto simp: parse_not.simps)
    qed
  qed
next
  case (11 ts pos masks universal)
  show ?case
  proof (intro allI impI)
    fix v q
    assume res: "parse_atom ts pos masks universal = Inr (v, q)"
    then have lt: "pos < length ts"
      by (simp add: parse_atom.simps split: if_splits)
    show "parse_atom (ts @ rest) pos masks universal = Inr (v, q)"
    proof (cases "ts ! pos = ''(''")
      case True
      with res lt obtain p' where
        r1: "parse_expression ts (pos + 1) masks universal = Inr (v, p')" and
        r2: "p' < length ts" "ts ! p' = '')''" "q = p' + 1"
        by (auto simp: parse_atom.simps split: sum.splits prod.splits if_splits)
      from r2 have "not_stops masks ts rest p'"
        "loop_stops [''AND'', ''XOR'', ''DIFF'', ''OR''] ts rest p'"
        by (simp_all add: not_stops_def loop_stops_def)
      with "11.hyps" lt True r1 have
        "parse_expression (ts @ rest) (pos + 1) masks universal = Inr (v, p')" by simp
      with lt True r2 show ?thesis
        by (simp add: parse_atom.simps nth_append)
    next
      case False
      with res lt show ?thesis
        by (simp add: parse_atom.simps nth_append split: option.splits)
    qed
  qed
qed

subsection \<open>A binary operator at the end of the stream\<close>

lemma atom_error_propagates:
  assumes "parse_atom tokens pos masks universal = Inl e"
  shows "parse_not tokens pos masks universal = Inl e"
    and "parse_and tokens pos masks universal = Inl e"
    and "parse_xor tokens pos masks universal = Inl e"
    and "parse_diff tokens pos masks universal = Inl e"
    and "parse_or tokens pos masks universal = Inl e"
    and "parse_expression tokens pos masks universal = Inl e"
  using assms
  by (simp_all add: parse_expression.simps parse_or.simps parse_diff.simps parse_xor.simps
      parse_and.simps parse_not.simps)

lemma parse_past_end:
  assumes "length tokens \<le> pos"
  shows "parse_atom tokens pos masks universal = Inl Unexpected_end_of_expression"
    and "parse_not tokens pos masks universal = Inl Unexpected_end_of_expression"
    and "parse_and tokens pos masks universal = Inl Unexpected_end_of_expression"
    and "parse_xor tokens pos masks universal = Inl Unexpected_end_of_expression"
    and "parse_diff tokens pos masks universal = Inl Unexpected_end_of_expression"
    and "parse_or tokens pos masks universal = Inl Unexpected_end_of_expression"
    and "parse_expression tokens pos masks universal = Inl Unexpected_end_of_expression"
proof -
  show a: "parse_atom tokens pos masks universal = Inl Unexpected_end_of_expression"
    using assms by (simp add: parse_atom.simps)
  from atom_error_propagates [OF a]
  show "parse_not tokens pos masks universal = Inl Unexpected_end_of_expression"
    and "parse_and tokens pos masks universal = Inl Unexpected_end_of_expression"
    and "parse_xor tokens pos masks universal = Inl Unexpected_end_of_expression"
    and "parse_diff tokens pos masks universal = Inl Unexpected_end_of_expression"
    and "parse_or tokens pos masks universal = Inl Unexpected_end_of_expression"
    and "parse_expression tokens pos masks universal = Inl Unexpected_end_of_expression"
    by simp_all
qed

lemma parse_trailing_operator:
  "\<forall>v. parse_expression ts pos masks universal = Inr (v, length ts) \<longrightarrow>
     op \<in> set [''AND'', ''XOR'', ''DIFF'', ''OR''] \<longrightarrow>
     parse_expression (ts @ [op]) pos masks universal = Inl Unexpected_end_of_expression"
  "\<forall>v. parse_or ts pos masks universal = Inr (v, length ts) \<longrightarrow>
     op \<in> set [''AND'', ''XOR'', ''DIFF'', ''OR''] \<longrightarrow>
     parse_or (ts @ [op]) pos masks universal = Inl Unexpected_end_of_expression"
  "\<forall>v. parse_or_loop ts left pos masks universal = Inr (v, length ts) \<longrightarrow> pos \<le> length ts \<longrightarrow>
     op \<in> set [''AND'', ''XOR'', ''DIFF'', ''OR''] \<longrightarrow> (op \<noteq> ''OR'' \<longrightarrow> pos < length ts) \<longrightarrow>
     parse_or_loop (ts @ [op]) left pos masks universal = Inl Unexpected_end_of_expression"
  "\<forall>v. parse_diff ts pos masks universal = Inr (v, length ts) \<longrightarrow>
     op \<in> set [''AND'', ''XOR'', ''DIFF''] \<longrightarrow>
     parse_diff (ts @ [op]) pos masks universal = Inl Unexpected_end_of_expression"
  "\<forall>v. parse_diff_loop ts left pos masks universal = Inr (v, length ts) \<longrightarrow> pos \<le> length ts \<longrightarrow>
     op \<in> set [''AND'', ''XOR'', ''DIFF''] \<longrightarrow> (op \<noteq> ''DIFF'' \<longrightarrow> pos < length ts) \<longrightarrow>
     parse_diff_loop (ts @ [op]) left pos masks universal = Inl Unexpected_end_of_expression"
  "\<forall>v. parse_xor ts pos masks universal = Inr (v, length ts) \<longrightarrow>
     op \<in> set [''AND'', ''XOR''] \<longrightarrow>
     parse_xor (ts @ [op]) pos masks universal = Inl Unexpected_end_of_expression"
  "\<forall>v. parse_xor_loop ts left pos masks universal = Inr (v, length ts) \<longrightarrow> pos \<le> length ts \<longrightarrow>
     op \<in> set [''AND'', ''XOR''] \<longrightarrow> (op \<noteq> ''XOR'' \<longrightarrow> pos < length ts) \<longrightarrow>
     parse_xor_loop (ts @ [op]) left pos masks universal = Inl Unexpected_end_of_expression"
  "\<forall>v. parse_and ts pos masks universal = Inr (v, length ts) \<longrightarrow>
     op \<in> set [''AND''] \<longrightarrow>
     parse_and (ts @ [op]) pos masks universal = Inl Unexpected_end_of_expression"
  "\<forall>v. parse_and_loop ts left pos masks universal = Inr (v, length ts) \<longrightarrow> pos \<le> length ts \<longrightarrow>
     op \<in> set [''AND''] \<longrightarrow> (op \<noteq> ''AND'' \<longrightarrow> pos < length ts) \<longrightarrow>
     parse_and_loop (ts @ [op]) left pos masks universal = Inl Unexpected_end_of_expression"
  "\<forall>v q. parse_not ts pos masks universal = Inr (v, q) \<longrightarrow>
     op \<in> set [''AND'', ''XOR'', ''DIFF'', ''OR''] \<longrightarrow>
     parse_not (ts @ [op]) pos masks universal = Inr (v, q)"
  "\<forall>v q. parse_atom ts pos masks universal = Inr (v, q) \<longrightarrow>
     parse_atom (ts @ [op]) pos masks universal = Inr (v, q)"
proof (induct ts pos masks universal and ts pos masks universal and ts left pos masks universal
    and ts pos masks universal and ts left pos masks universal
    and ts pos masks universal and ts left pos masks universal
    and ts pos masks universal and ts left pos masks universal
    and ts pos masks universal and ts pos masks universal
    rule: parse_induct)
  case (1 ts pos masks universal)
  then show ?case by (simp add: parse_expression.simps)
next
  case (2 ts pos masks universal)
  show ?case
  proof (intro allI impI)
    fix v
    assume res: "parse_or ts pos masks universal = Inr (v, length ts)"
      and opin: "op \<in> set [''AND'', ''XOR'', ''DIFF'', ''OR'']"
    from res obtain left p' where
      r1: "parse_diff ts pos masks universal = Inr (left, p')" and
      r2: "parse_or_loop ts left p' masks universal = Inr (v, length ts)"
      by (auto simp: parse_or.simps split: sum.splits prod.splits)
    from r1 have b: "p' \<le> length ts" using parse_bounds(4) by blast
    show "parse_or (ts @ [op]) pos masks universal = Inl Unexpected_end_of_expression"
    proof (cases "p' = length ts \<and> op \<noteq> ''OR''")
      case True
      with opin have "op \<in> set [''AND'', ''XOR'', ''DIFF'']" by auto
      with "2.hyps"(1) r1 True have
        "parse_diff (ts @ [op]) pos masks universal = Inl Unexpected_end_of_expression"
        by blast
      then show ?thesis by (simp add: parse_or.simps)
    next
      case False
      with b opin have "not_stops masks ts [op] p'"
        "loop_stops [''AND'', ''XOR'', ''DIFF''] ts [op] p'"
        by (auto simp: not_stops_def loop_stops_def)
      with parse_append(4) [of ts pos masks universal "[op]"] r1 have
        "parse_diff (ts @ [op]) pos masks universal = Inr (left, p')" by blast
      moreover from False b have "op \<noteq> ''OR'' \<longrightarrow> p' < length ts" by auto
      with "2.hyps"(2) [OF r1 refl] r2 b opin have
        "parse_or_loop (ts @ [op]) left p' masks universal = Inl Unexpected_end_of_expression"
        by blast
      ultimately show ?thesis by (simp add: parse_or.simps)
    qed
  qed
next
  case (3 ts left pos masks universal)
  show ?case
  proof (intro allI impI)
    fix v
    assume res: "parse_or_loop ts left pos masks universal = Inr (v, length ts)"
      and le: "pos \<le> length ts"
      and opin: "op \<in> set [''AND'', ''XOR'', ''DIFF'', ''OR'']"
      and c: "op \<noteq> ''OR'' \<longrightarrow> pos < length ts"
    show "parse_or_loop (ts @ [op]) left pos masks universal = Inl Unexpected_end_of_expression"
    proof (cases "pos < length ts \<and> ts ! pos = ''OR''")
      case guard: True
      with res obtain right p' left' where
        r1: "parse_diff ts (pos + 1) masks universal = Inr (right, p')" and
        r2: "np_or left right = Inr left'" and
        r3: "parse_or_loop ts left' p' masks universal = Inr (v, length ts)"
        by (auto simp: parse_or_loop_step split: sum.splits prod.splits)
      from r1 have b: "p' \<le> length ts" using parse_bounds(4) by blast
      show ?thesis
      proof (cases "p' = length ts \<and> op \<noteq> ''OR''")
        case True
        with opin have "op \<in> set [''AND'', ''XOR'', ''DIFF'']" by auto
        with "3.hyps"(1) guard r1 True have
          "parse_diff (ts @ [op]) (pos + 1) masks universal = Inl Unexpected_end_of_expression"
          by blast
        with guard show ?thesis by (simp add: parse_or_loop_step nth_append)
      next
        case False
        with b opin have "not_stops masks ts [op] p'"
          "loop_stops [''AND'', ''XOR'', ''DIFF''] ts [op] p'"
          by (auto simp: not_stops_def loop_stops_def)
        with parse_append(4) [of ts "pos + 1" masks universal "[op]"] r1 have
          "parse_diff (ts @ [op]) (pos + 1) masks universal = Inr (right, p')" by blast
        moreover from False b have "op \<noteq> ''OR'' \<longrightarrow> p' < length ts" by auto
        with "3.hyps"(2) [OF guard r1 refl r2] r3 b opin have
          "parse_or_loop (ts @ [op]) left' p' masks universal = Inl Unexpected_end_of_expression"
          by blast
        ultimately show ?thesis
          using guard r2 by (simp add: parse_or_loop_step nth_append)
      qed
    next
      case False
      with res have "pos = length ts"
        by (simp add: parse_or_loop_exit)
      with c have "op = ''OR''" by auto
      with \<open>pos = length ts\<close> show ?thesis
        by (simp add: parse_or_loop_step parse_past_end)
    qed
  qed
next
  case (4 ts pos masks universal)
  show ?case
  proof (intro allI impI)
    fix v
    assume res: "parse_diff ts pos masks universal = Inr (v, length ts)"
      and opin: "op \<in> set [''AND'', ''XOR'', ''DIFF'']"
    from res obtain left p' where
      r1: "parse_xor ts pos masks universal = Inr (left, p')" and
      r2: "parse_diff_loop ts left p' masks universal = Inr (v, length ts)"
      by (auto simp: parse_diff.simps split: sum.splits prod.splits)
    from r1 have b: "p' \<le> length ts" using parse_bounds(6) by blast
    show "parse_diff (ts @ [op]) pos masks universal = Inl Unexpected_end_of_expression"
    proof (cases "p' = length ts \<and> op \<noteq> ''DIFF''")
      case True
      with opin have "op \<in> set [''AND'', ''XOR'']" by auto
      with "4.hyps"(1) r1 True have
        "parse_xor (ts @ [op]) pos masks universal = Inl Unexpected_end_of_expression"
        by blast
      then show ?thesis by (simp add: parse_diff.simps)
    next
      case False
      with b opin have "not_stops masks ts [op] p'"
        "loop_stops [''AND'', ''XOR''] ts [op] p'"
        by (auto simp: not_stops_def loop_stops_def)
      with parse_append(6) [of ts pos masks universal "[op]"] r1 have
        "parse_xor (ts @ [op]) pos masks universal = Inr (left, p')" by blast
      moreover from False b have "op \<noteq> ''DIFF'' \<longrightarrow> p' < length ts" by auto
      with "4.hyps"(2) [OF r1 refl] r2 b opin have
        "parse_diff_loop (ts @ [op]) left p' masks universal = Inl Unexpected_end_of_expression"
        by blast
      ultimately show ?thesis by (simp add: parse_diff.simps)
    qed
  qed
next
  case (5 ts left pos masks universal)
  show ?case
  proof (intro allI impI)
    fix v
    assume res: "parse_diff_loop ts left pos masks universal = Inr (v, length ts)"
      and le: "pos \<le> length ts"
      and opin: "op \<in> set [''AND'', ''XOR'', ''DIFF'']"
      and c: "op \<noteq> ''DIFF'' \<longrightarrow> pos < length ts"
    show "parse_diff_loop (ts @ [op]) left pos masks universal = Inl Unexpected_end_of_expression"
    proof (cases "pos < length ts \<and> ts ! pos = ''DIFF''")
      case guard: True
      with res obtain right p' left' where
        r1: "parse_xor ts (pos + 1) masks universal = Inr (right, p')" and
        r2: "np_and left (np_invert right) = Inr left'" and
        r3: "parse_diff_loop ts left' p' masks universal = Inr (v, length ts)"
        by (auto simp: parse_diff_loop_step split: sum.splits prod.splits)
      from r1 have b: "p' \<le> length ts" using parse_bounds(6) by blast
      show ?thesis
      proof (cases "p' = length ts \<and> op \<noteq> ''DIFF''")
        case True
        with opin have "op \<in> set [''AND'', ''XOR'']" by auto
        with "5.hyps"(1) guard r1 True have
          "parse_xor (ts @ [op]) (pos + 1) masks universal = Inl Unexpected_end_of_expression"
          by blast
        with guard show ?thesis by (simp add: parse_diff_loop_step nth_append)
      next
        case False
        with b opin have "not_stops masks ts [op] p'"
          "loop_stops [''AND'', ''XOR''] ts [op] p'"
          by (auto simp: not_stops_def loop_stops_def)
        with parse_append(6) [of ts "pos + 1" masks universal "[op]"] r1 have
          "parse_xor (ts @ [op]) (pos + 1) masks universal = Inr (right, p')" by blast
        moreover from False b have "op \<noteq> ''DIFF'' \<longrightarrow> p' < length ts" by auto
        with "5.hyps"(2) [OF guard r1 refl r2] r3 b opin have
          "parse_diff_loop (ts @ [op]) left' p' masks universal = Inl Unexpected_end_of_expression"
          by blast
        ultimately show ?thesis
          using guard r2 by (simp add: parse_diff_loop_step nth_append)
      qed
    next
      case False
      with res have "pos = length ts"
        by (simp add: parse_diff_loop_exit)
      with c have "op = ''DIFF''" by auto
      with \<open>pos = length ts\<close> show ?thesis
        by (simp add: parse_diff_loop_step parse_past_end)
    qed
  qed
next
  case (6 ts pos masks universal)
  show ?case
  proof (intro allI impI)
    fix v
    assume res: "parse_xor ts pos masks universal = Inr (v, length ts)"
      and opin: "op \<in> set [''AND'', ''XOR'']"
    from res obtain left p' where
      r1: "parse_and ts pos masks universal = Inr (left, p')" and
      r2: "parse_xor_loop ts left p' masks universal = Inr (v, length ts)"
      by (auto simp: parse_xor.simps split: sum.splits prod.splits)
    from r1 have b: "p' \<le> length ts" using parse_bounds(8) by blast
    show "parse_xor (ts @ [op]) pos masks universal = Inl Unexpected_end_of_expression"
    proof (cases "p' = length ts \<and> op \<noteq> ''XOR''")
      case True
      with opin have "op \<in> set [''AND'']" by auto
      with "6.hyps"(1) r1 True have
        "parse_and (ts @ [op]) pos masks universal = Inl Unexpected_end_of_expression"
        by blast
      then show ?thesis by (simp add: parse_xor.simps)
    next
      case False
      with b opin have "not_stops masks ts [op] p'"
        "loop_stops [''AND''] ts [op] p'"
        by (auto simp: not_stops_def loop_stops_def)
      with parse_append(8) [of ts pos masks universal "[op]"] r1 have
        "parse_and (ts @ [op]) pos masks universal = Inr (left, p')" by blast
      moreover from False b have "op \<noteq> ''XOR'' \<longrightarrow> p' < length ts" by auto
      with "6.hyps"(2) [OF r1 refl] r2 b opin have
        "parse_xor_loop (ts @ [op]) left p' masks universal = Inl Unexpected_end_of_expression"
        by blast
      ultimately show ?thesis by (simp add: parse_xor.simps)
    qed
  qed
next
  case (7 ts left pos masks universal)
  show ?case
  proof (intro allI impI)
    fix v
    assume res: "parse_xor_loop ts left pos masks universal = Inr (v, length ts)"
      and le: "pos \<le> length ts"
      and opin: "op \<in> set [''AND'', ''XOR'']"
      and c: "op \<noteq> ''XOR'' \<longrightarrow> pos < length ts"
    show "parse_xor_loop (ts @ [op]) left pos masks universal = Inl Unexpected_end_of_expression"
    proof (cases "pos < length ts \<and> ts ! pos = ''XOR''")
      case guard: True
      with res obtain right p' left' where
        r1: "parse_and ts (pos + 1) masks universal = Inr (right, p')" and
        r2: "np_xor left right = Inr left'" and
        r3: "parse_xor_loop ts left' p' masks universal = Inr (v, length ts)"
        by (auto simp: parse_xor_loop_step split: sum.splits prod.splits)
      from r1 have b: "p' \<le> length ts" using parse_bounds(8) by blast
      show ?thesis
      proof (cases "p' = length ts \<and> op \<noteq> ''XOR''")
        case True
        with opin have "op \<in> set [''AND'']" by auto
        with "7.hyps"(1) guard r1 True have
          "parse_and (ts @ [op]) (pos + 1) masks universal = Inl Unexpected_end_of_expression"
          by blast
        with guard show ?thesis by (simp add: parse_xor_loop_step nth_append)
      next
        case False
        with b opin have "not_stops masks ts [op] p'"
          "loop_stops [''AND''] ts [op] p'"
          by (auto simp: not_stops_def loop_stops_def)
        with parse_append(8) [of ts "pos + 1" masks universal "[op]"] r1 have
          "parse_and (ts @ [op]) (pos + 1) masks universal = Inr (right, p')" by blast
        moreover from False b have "op \<noteq> ''XOR'' \<longrightarrow> p' < length ts" by auto
        with "7.hyps"(2) [OF guard r1 refl r2] r3 b opin have
          "parse_xor_loop (ts @ [op]) left' p' masks universal = Inl Unexpected_end_of_expression"
          by blast
        ultimately show ?thesis
          using guard r2 by (simp add: parse_xor_loop_step nth_append)
      qed
    next
      case False
      with res have "pos = length ts"
        by (simp add: parse_xor_loop_exit)
      with c have "op = ''XOR''" by auto
      with \<open>pos = length ts\<close> show ?thesis
        by (simp add: parse_xor_loop_step parse_past_end)
    qed
  qed
next
  case (8 ts pos masks universal)
  show ?case
  proof (intro allI impI)
    fix v
    assume res: "parse_and ts pos masks universal = Inr (v, length ts)"
      and opin: "op \<in> set [''AND'']"
    from res obtain left p' where
      r1: "parse_not ts pos masks universal = Inr (left, p')" and
      r2: "parse_and_loop ts left p' masks universal = Inr (v, length ts)"
      by (auto simp: parse_and.simps split: sum.splits prod.splits)
    from r1 have b: "p' \<le> length ts" using parse_bounds(10) by blast
    show "parse_and (ts @ [op]) pos masks universal = Inl Unexpected_end_of_expression"
    proof (cases "p' = length ts \<and> op \<noteq> ''AND''")
      case True
      with opin show ?thesis by simp
    next
      case False
      with b opin have "not_stops masks ts [op] p'"
        by (auto simp: not_stops_def)
      with parse_append(10) [of ts pos masks universal "[op]"] r1 have
        "parse_not (ts @ [op]) pos masks universal = Inr (left, p')" by blast
      moreover from False b have "op \<noteq> ''AND'' \<longrightarrow> p' < length ts" by auto
      with "8.hyps"(2) [OF r1 refl] r2 b opin have
        "parse_and_loop (ts @ [op]) left p' masks universal = Inl Unexpected_end_of_expression"
        by blast
      ultimately show ?thesis by (simp add: parse_and.simps)
    qed
  qed
next
  case (9 ts left pos masks universal)
  show ?case
  proof (intro allI impI)
    fix v
    assume res: "parse_and_loop ts left pos masks universal = Inr (v, length ts)"
      and le: "pos \<le> length ts"
      and opin: "op \<in> set [''AND'']"
      and c: "op \<noteq> ''AND'' \<longrightarrow> pos < length ts"
    show "parse_and_loop (ts @ [op]) left pos masks universal = Inl Unexpected_end_of_expression"
    proof (cases "pos < length ts \<and> ts ! pos = ''AND''")
      case guard: True
      with res obtain right p' left' where
        r1: "parse_not ts (pos + 1) masks universal = Inr (right, p')" and
        r2: "np_and left right = Inr left'" and
        r3: "parse_and_loop ts left' p' masks universal = Inr (v, length ts)"
        by (auto simp: parse_and_loop_step split: sum.splits prod.splits)
      from r1 have b: "p' \<le> length ts" using parse_bounds(10) by blast
      show ?thesis
      proof (cases "p' = length ts \<and> op \<noteq> ''AND''")
        case True
        with opin show ?thesis by simp
      next
        case False
        with b opin have "not_stops masks ts [op] p'"
          by (auto simp: not_stops_def)
        with parse_append(10) [of ts "pos + 1" masks universal "[op]"] r1 have
          "parse_not (ts @ [op]) (pos + 1) masks universal = Inr (right, p')" by blast
        moreover from False b have "op \<noteq> ''AND'' \<longrightarrow> p' < length ts" by auto
        with "9.hyps"(2) [OF guard r1 refl r2] r3 b opin have
          "parse_and_loop (ts @ [op]) left' p' masks universal = Inl Unexpected_end_of_expression"
          by blast
        ultimately show ?thesis
          using guard r2 by (simp add: parse_and_loop_step nth_append)
      qed
    next
      case False
      with res have "pos = length ts"
        by (simp add: parse_and_loop_exit)
      with c have "op = ''AND''" by auto
      with \<open>pos = length ts\<close> show ?thesis
        by (simp add: parse_and_loop_step parse_past_end)
    qed
  qed
next
  case (10 ts pos masks universal)
  show ?case
  proof (intro allI impI)
    fix v q
    assume res: "parse_not ts pos masks universal = Inr (v, q)"
      and opin: "op \<in> set [''AND'', ''XOR'', ''DIFF'', ''OR'']"
    from opin have "not_stops masks ts [op] q"
      by (auto simp: not_stops_def)
    with parse_append(10) [of ts pos masks universal "[op]"] res
    show "parse_not (ts @ [op]) pos masks universal = Inr (v, q)" by blast
  qed
next
  case (11 ts pos masks universal)
  show ?case
    using parse_append(11) [of ts pos masks universal "[op]"] .
qed

subsection \<open>A token in front of the stream\<close>

lemma shifted_simps [simp]:
  "shifted (Inl e) = Inl e" "shifted (Inr (v, q)) = Inr (v, Suc q)"
  by (simp_all add: shifted_def)

lemma parse_shift:
  "parse_expression (t # ts) (Suc pos) masks universal =
     shifted (parse_expression ts pos masks universal)"
  "parse_or (t # ts) (Suc pos) masks universal = shifted (parse_or ts pos masks universal)"
  "parse_or_loop (t # ts) left (Suc pos) masks universal =
     shifted (parse_or_loop ts left pos masks universal)"
  "parse_diff (t # ts) (Suc pos) masks universal = shifted (parse_diff ts pos masks universal)"
  "parse_diff_loop (t # ts) left (Suc pos) masks universal =
     shifted (parse_diff_loop ts left pos masks universal)"
  "parse_xor (t # ts) (Suc pos) masks universal = shifted (parse_xor ts pos masks universal)"
  "parse_xor_loop (t # ts) left (Suc pos) masks universal =
     shifted (parse_xor_loop ts left pos masks universal)"
  "parse_and (t # ts) (Suc pos) masks universal = shifted (parse_and ts pos masks universal)"
  "parse_and_loop (t # ts) left (Suc pos) masks universal =
     shifted (parse_and_loop ts left pos masks universal)"
  "parse_not (t # ts) (Suc pos) masks universal = shifted (parse_not ts pos masks universal)"
  "parse_atom (t # ts) (Suc pos) masks universal = shifted (parse_atom ts pos masks universal)"
proof (induct ts pos masks universal and ts pos masks universal and ts left pos masks universal
    and ts pos masks universal and ts left pos masks universal
    and ts pos masks universal and ts left pos masks universal
    and ts pos masks universal and ts left pos masks universal
    and ts pos masks universal and ts pos masks universal
    rule: parse_induct)
  case (1 ts pos masks universal)
  then show ?case by (simp add: parse_expression.simps)
next
  case (2 ts pos masks universal)
  then show ?case
    by (cases "parse_diff ts pos masks universal") (auto simp: parse_or.simps)
next
  case (3 ts left pos masks universal)
  show ?case
  proof (cases "pos < length ts \<and> ts ! pos = ''OR''")
    case True
    with 3 show ?thesis
      by (cases "parse_diff ts (pos + 1) masks universal")
         (auto simp: parse_or_loop_step split: sum.splits)
  next
    case False
    then show ?thesis by (auto simp: parse_or_loop_exit)
  qed
next
  case (4 ts pos masks universal)
  then show ?case
    by (cases "parse_xor ts pos masks universal") (auto simp: parse_diff.simps)
next
  case (5 ts left pos masks universal)
  show ?case
  proof (cases "pos < length ts \<and> ts ! pos = ''DIFF''")
    case True
    with 5 show ?thesis
      by (cases "parse_xor ts (pos + 1) masks universal")
         (auto simp: parse_diff_loop_step split: sum.splits)
  next
    case False
    then show ?thesis by (auto simp: parse_diff_loop_exit)
  qed
next
  case (6 ts pos masks universal)
  then show ?case
    by (cases "parse_and ts pos masks universal") (auto simp: parse_xor.simps)
next
  case (7 ts left pos masks universal)
  show ?case
  proof (cases "pos < length ts \<and> ts ! pos = ''XOR''")
    case True
    with 7 show ?thesis
      by (cases "parse_and ts (pos + 1) masks universal")
         (auto simp: parse_xor_loop_step split: sum.splits)
  next
    case False
    then show ?thesis by (auto simp: parse_xor_loop_exit)
  qed
next
  case (8 ts pos masks universal)
  then show ?case
    by (cases "parse_not ts pos masks universal") (auto simp: parse_and.simps)
next
  case (9 ts left pos masks universal)
  show ?case
  proof (cases "pos < length ts \<and> ts ! pos = ''AND''")
    case True
    with 9 show ?thesis
      by (cases "parse_not ts (pos + 1) masks universal")
         (auto simp: parse_and_loop_step split: sum.splits)
  next
    case False
    then show ?thesis by (auto simp: parse_and_loop_exit)
  qed
next
  case (10 ts pos masks universal)
  then show ?case
    by (cases "parse_atom ts pos masks universal")
       (auto simp: parse_not.simps split: sum.splits)
next
  case (11 ts pos masks universal)
  show ?case
  proof (cases "pos < length ts \<and> ts ! pos = ''(''")
    case True
    with 11 show ?thesis
      by (cases "parse_expression ts (pos + 1) masks universal")
         (auto simp: parse_atom.simps)
  next
    case False
    then show ?thesis
      by (auto simp: parse_atom.simps split: option.splits)
  qed
qed

lemma parse_unclosed_parenthesis:
  assumes "parse_expression ts 0 masks universal = Inr (v, length ts)"
  shows "parse_expression (''('' # ts) 0 masks universal = Inl Missing_closing_parenthesis"
proof -
  have "parse_expression (''('' # ts) (0 + 1) masks universal = Inr (v, Suc (length ts))"
    using assms by (simp add: parse_shift)
  then have "parse_atom (''('' # ts) 0 masks universal = Inl Missing_closing_parenthesis"
    by (subst parse_atom.simps) simp
  then show ?thesis by (rule atom_error_propagates)
qed

subsection \<open>Results over the universe\<close>

text \<open>Over a uniform membership map every vector that a tier returns ranges over the universe.\<close>

lemma parse_length:
  "\<forall>v q. parse_expression tokens pos masks universal = Inr (v, q) \<longrightarrow>
     uniform masks universal \<longrightarrow> length v = length universal"
  "\<forall>v q. parse_or tokens pos masks universal = Inr (v, q) \<longrightarrow>
     uniform masks universal \<longrightarrow> length v = length universal"
  "\<forall>v q. parse_or_loop tokens left pos masks universal = Inr (v, q) \<longrightarrow>
     uniform masks universal \<longrightarrow> length left = length universal \<longrightarrow> length v = length universal"
  "\<forall>v q. parse_diff tokens pos masks universal = Inr (v, q) \<longrightarrow>
     uniform masks universal \<longrightarrow> length v = length universal"
  "\<forall>v q. parse_diff_loop tokens left pos masks universal = Inr (v, q) \<longrightarrow>
     uniform masks universal \<longrightarrow> length left = length universal \<longrightarrow> length v = length universal"
  "\<forall>v q. parse_xor tokens pos masks universal = Inr (v, q) \<longrightarrow>
     uniform masks universal \<longrightarrow> length v = length universal"
  "\<forall>v q. parse_xor_loop tokens left pos masks universal = Inr (v, q) \<longrightarrow>
     uniform masks universal \<longrightarrow> length left = length universal \<longrightarrow> length v = length universal"
  "\<forall>v q. parse_and tokens pos masks universal = Inr (v, q) \<longrightarrow>
     uniform masks universal \<longrightarrow> length v = length universal"
  "\<forall>v q. parse_and_loop tokens left pos masks universal = Inr (v, q) \<longrightarrow>
     uniform masks universal \<longrightarrow> length left = length universal \<longrightarrow> length v = length universal"
  "\<forall>v q. parse_not tokens pos masks universal = Inr (v, q) \<longrightarrow>
     uniform masks universal \<longrightarrow> length v = length universal"
  "\<forall>v q. parse_atom tokens pos masks universal = Inr (v, q) \<longrightarrow>
     uniform masks universal \<longrightarrow> length v = length universal"
proof (induct tokens pos masks universal and tokens pos masks universal
    and tokens left pos masks universal
    and tokens pos masks universal and tokens left pos masks universal
    and tokens pos masks universal and tokens left pos masks universal
    and tokens pos masks universal and tokens left pos masks universal
    and tokens pos masks universal and tokens pos masks universal
    rule: parse_induct)
  case (1 tokens pos masks universal)
  then show ?case by (simp add: parse_expression.simps)
next
  case (2 tokens pos masks universal)
  show ?case
  proof (intro allI impI)
    fix v q
    assume res: "parse_or tokens pos masks universal = Inr (v, q)"
      and u: "uniform masks universal"
    from res obtain left p' where
      r1: "parse_diff tokens pos masks universal = Inr (left, p')" and
      r2: "parse_or_loop tokens left p' masks universal = Inr (v, q)"
      by (auto simp: parse_or.simps split: sum.splits prod.splits)
    from "2.hyps"(1) r1 u have "length left = length universal" by blast
    with "2.hyps"(2) [OF r1 refl] r2 u show "length v = length universal"
      by blast
  qed
next
  case (3 tokens left pos masks universal)
  show ?case
  proof (cases "pos < length tokens \<and> tokens ! pos = ''OR''")
    case True
    show ?thesis
    proof (intro allI impI)
      fix v q
      assume res: "parse_or_loop tokens left pos masks universal = Inr (v, q)"
        and u: "uniform masks universal" and l: "length left = length universal"
      from res True obtain right p' left' where
        r1: "parse_diff tokens (pos + 1) masks universal = Inr (right, p')" and
        r2: "np_or left right = Inr left'" and
        r3: "parse_or_loop tokens left' p' masks universal = Inr (v, q)"
        by (auto simp: parse_or_loop_step split: sum.splits prod.splits)
      from "3.hyps"(1) True r1 u have "length right = length universal" by blast
      with l r2 np_results_length(1) [of left "length universal" right]
      have "length left' = length universal" by auto
      with "3.hyps"(2) [OF True r1 refl r2] r3 u show "length v = length universal"
        by blast
    qed
  next
    case False
    then show ?thesis by (simp add: parse_or_loop_exit)
  qed
next
  case (4 tokens pos masks universal)
  show ?case
  proof (intro allI impI)
    fix v q
    assume res: "parse_diff tokens pos masks universal = Inr (v, q)"
      and u: "uniform masks universal"
    from res obtain left p' where
      r1: "parse_xor tokens pos masks universal = Inr (left, p')" and
      r2: "parse_diff_loop tokens left p' masks universal = Inr (v, q)"
      by (auto simp: parse_diff.simps split: sum.splits prod.splits)
    from "4.hyps"(1) r1 u have "length left = length universal" by blast
    with "4.hyps"(2) [OF r1 refl] r2 u show "length v = length universal"
      by blast
  qed
next
  case (5 tokens left pos masks universal)
  show ?case
  proof (cases "pos < length tokens \<and> tokens ! pos = ''DIFF''")
    case True
    show ?thesis
    proof (intro allI impI)
      fix v q
      assume res: "parse_diff_loop tokens left pos masks universal = Inr (v, q)"
        and u: "uniform masks universal" and l: "length left = length universal"
      from res True obtain right p' left' where
        r1: "parse_xor tokens (pos + 1) masks universal = Inr (right, p')" and
        r2: "np_and left (np_invert right) = Inr left'" and
        r3: "parse_diff_loop tokens left' p' masks universal = Inr (v, q)"
        by (auto simp: parse_diff_loop_step split: sum.splits prod.splits)
      from "5.hyps"(1) True r1 u have "length right = length universal" by blast
      with l r2 np_results_length(4) [of left "length universal" right]
      have "length left' = length universal" by auto
      with "5.hyps"(2) [OF True r1 refl r2] r3 u show "length v = length universal"
        by blast
    qed
  next
    case False
    then show ?thesis by (simp add: parse_diff_loop_exit)
  qed
next
  case (6 tokens pos masks universal)
  show ?case
  proof (intro allI impI)
    fix v q
    assume res: "parse_xor tokens pos masks universal = Inr (v, q)"
      and u: "uniform masks universal"
    from res obtain left p' where
      r1: "parse_and tokens pos masks universal = Inr (left, p')" and
      r2: "parse_xor_loop tokens left p' masks universal = Inr (v, q)"
      by (auto simp: parse_xor.simps split: sum.splits prod.splits)
    from "6.hyps"(1) r1 u have "length left = length universal" by blast
    with "6.hyps"(2) [OF r1 refl] r2 u show "length v = length universal"
      by blast
  qed
next
  case (7 tokens left pos masks universal)
  show ?case
  proof (cases "pos < length tokens \<and> tokens ! pos = ''XOR''")
    case True
    show ?thesis
    proof (intro allI impI)
      fix v q
      assume res: "parse_xor_loop tokens left pos masks universal = Inr (v, q)"
        and u: "uniform masks universal" and l: "length left = length universal"
      from res True obtain right p' left' where
        r1: "parse_and tokens (pos + 1) masks universal = Inr (right, p')" and
        r2: "np_xor left right = Inr left'" and
        r3: "parse_xor_loop tokens left' p' masks universal = Inr (v, q)"
        by (auto simp: parse_xor_loop_step split: sum.splits prod.splits)
      from "7.hyps"(1) True r1 u have "length right = length universal" by blast
      with l r2 np_results_length(3) [of left "length universal" right]
      have "length left' = length universal" by auto
      with "7.hyps"(2) [OF True r1 refl r2] r3 u show "length v = length universal"
        by blast
    qed
  next
    case False
    then show ?thesis by (simp add: parse_xor_loop_exit)
  qed
next
  case (8 tokens pos masks universal)
  show ?case
  proof (intro allI impI)
    fix v q
    assume res: "parse_and tokens pos masks universal = Inr (v, q)"
      and u: "uniform masks universal"
    from res obtain left p' where
      r1: "parse_not tokens pos masks universal = Inr (left, p')" and
      r2: "parse_and_loop tokens left p' masks universal = Inr (v, q)"
      by (auto simp: parse_and.simps split: sum.splits prod.splits)
    from "8.hyps"(1) r1 u have "length left = length universal" by blast
    with "8.hyps"(2) [OF r1 refl] r2 u show "length v = length universal"
      by blast
  qed
next
  case (9 tokens left pos masks universal)
  show ?case
  proof (cases "pos < length tokens \<and> tokens ! pos = ''AND''")
    case True
    show ?thesis
    proof (intro allI impI)
      fix v q
      assume res: "parse_and_loop tokens left pos masks universal = Inr (v, q)"
        and u: "uniform masks universal" and l: "length left = length universal"
      from res True obtain right p' left' where
        r1: "parse_not tokens (pos + 1) masks universal = Inr (right, p')" and
        r2: "np_and left right = Inr left'" and
        r3: "parse_and_loop tokens left' p' masks universal = Inr (v, q)"
        by (auto simp: parse_and_loop_step split: sum.splits prod.splits)
      from "9.hyps"(1) True r1 u have "length right = length universal" by blast
      with l r2 np_results_length(2) [of left "length universal" right]
      have "length left' = length universal" by auto
      with "9.hyps"(2) [OF True r1 refl r2] r3 u show "length v = length universal"
        by blast
    qed
  next
    case False
    then show ?thesis by (simp add: parse_and_loop_exit)
  qed
next
  case (10 tokens pos masks universal)
  show ?case
  proof (intro allI impI)
    fix v q
    assume res: "parse_not tokens pos masks universal = Inr (v, q)"
      and u: "uniform masks universal"
    from res obtain operand p' where
      r1: "parse_atom tokens pos masks universal = Inr (operand, p')"
      by (auto simp: parse_not.simps split: sum.splits prod.splits)
    with "10.hyps" u have l: "length operand = length universal" by blast
    show "length v = length universal"
    proof (cases "p' < length tokens \<and> tokens ! p' = ''NOT''")
      case True
      with res r1 have "np_and universal (np_invert operand) = Inr v"
        by (auto simp: parse_not.simps split: sum.splits)
      with l np_results_length(4) [of universal "length universal" operand]
      show ?thesis by auto
    next
      case False
      with res r1 l show ?thesis by (auto simp: parse_not.simps)
    qed
  qed
next
  case (11 tokens pos masks universal)
  show ?case
  proof (intro allI impI)
    fix v q
    assume res: "parse_atom tokens pos masks universal = Inr (v, q)"
      and u: "uniform masks universal"
    then have lt: "pos < length tokens"
      by (simp add: parse_atom.simps split: if_splits)
    show "length v = length universal"
    proof (cases "tokens ! pos = ''(''")
      case True
      with res lt obtain p' where
        "parse_expression tokens (pos + 1) masks universal = Inr (v, p')"
        by (auto simp: parse_atom.simps split: sum.splits prod.splits if_splits)
      with "11.hyps" lt True u show ?thesis by simp
    next
      case False
      with res lt have "masks (tokens ! pos) = Some v"
        by (auto simp: parse_atom.simps split: option.splits)
      with u show ?thesis
        by (auto simp: uniform_def)
    qed
  qed
qed

subsection \<open>Cutting the token stream\<close>

text \<open>
  The parse of a prefix of a stream follows the parse of the stream up to the cut. Over a
  uniform membership map no numpy operator raises on the way.
\<close>

lemma cut_outcome_cases:
  assumes "cut_outcome r n v q"
  obtains (failed) "r = Inl Unexpected_end_of_expression \<or> r = Inl Missing_closing_parenthesis"
    | (complete) v' where "r = Inr (v', n)"
    | (same) "q < n" and "r = Inr (v, q)"
  using assms by (auto simp: cut_outcome_def)

lemma parse_truncated:
  "\<forall>v q. parse_expression full pos masks universal = Inr (v, q) \<longrightarrow>
     n \<le> length full \<longrightarrow> uniform masks universal \<longrightarrow>
     cut_outcome (parse_expression (take n full) pos masks universal) n v q"
  "\<forall>v q. parse_or full pos masks universal = Inr (v, q) \<longrightarrow>
     n \<le> length full \<longrightarrow> uniform masks universal \<longrightarrow>
     cut_outcome (parse_or (take n full) pos masks universal) n v q"
  "\<forall>v q. parse_or_loop full left pos masks universal = Inr (v, q) \<longrightarrow>
     n \<le> length full \<longrightarrow> uniform masks universal \<longrightarrow>
     pos \<le> n \<longrightarrow> length left = length universal \<longrightarrow>
     cut_outcome (parse_or_loop (take n full) left pos masks universal) n v q"
  "\<forall>v q. parse_diff full pos masks universal = Inr (v, q) \<longrightarrow>
     n \<le> length full \<longrightarrow> uniform masks universal \<longrightarrow>
     cut_outcome (parse_diff (take n full) pos masks universal) n v q"
  "\<forall>v q. parse_diff_loop full left pos masks universal = Inr (v, q) \<longrightarrow>
     n \<le> length full \<longrightarrow> uniform masks universal \<longrightarrow>
     pos \<le> n \<longrightarrow> length left = length universal \<longrightarrow>
     cut_outcome (parse_diff_loop (take n full) left pos masks universal) n v q"
  "\<forall>v q. parse_xor full pos masks universal = Inr (v, q) \<longrightarrow>
     n \<le> length full \<longrightarrow> uniform masks universal \<longrightarrow>
     cut_outcome (parse_xor (take n full) pos masks universal) n v q"
  "\<forall>v q. parse_xor_loop full left pos masks universal = Inr (v, q) \<longrightarrow>
     n \<le> length full \<longrightarrow> uniform masks universal \<longrightarrow>
     pos \<le> n \<longrightarrow> length left = length universal \<longrightarrow>
     cut_outcome (parse_xor_loop (take n full) left pos masks universal) n v q"
  "\<forall>v q. parse_and full pos masks universal = Inr (v, q) \<longrightarrow>
     n \<le> length full \<longrightarrow> uniform masks universal \<longrightarrow>
     cut_outcome (parse_and (take n full) pos masks universal) n v q"
  "\<forall>v q. parse_and_loop full left pos masks universal = Inr (v, q) \<longrightarrow>
     n \<le> length full \<longrightarrow> uniform masks universal \<longrightarrow>
     pos \<le> n \<longrightarrow> length left = length universal \<longrightarrow>
     cut_outcome (parse_and_loop (take n full) left pos masks universal) n v q"
  "\<forall>v q. parse_not full pos masks universal = Inr (v, q) \<longrightarrow>
     n \<le> length full \<longrightarrow> uniform masks universal \<longrightarrow>
     cut_outcome (parse_not (take n full) pos masks universal) n v q"
  "\<forall>v q. parse_atom full pos masks universal = Inr (v, q) \<longrightarrow>
     n \<le> length full \<longrightarrow> uniform masks universal \<longrightarrow>
     cut_outcome (parse_atom (take n full) pos masks universal) n v q"
proof (induct full pos masks universal and full pos masks universal
    and full left pos masks universal
    and full pos masks universal and full left pos masks universal
    and full pos masks universal and full left pos masks universal
    and full pos masks universal and full left pos masks universal
    and full pos masks universal and full pos masks universal
    rule: parse_induct)
  case (1 full pos masks universal)
  then show ?case by (simp add: parse_expression.simps)
next
  case (2 full pos masks universal)
  show ?case
  proof (intro allI impI)
    fix v q
    assume res: "parse_or full pos masks universal = Inr (v, q)"
      and n: "n \<le> length full" and u: "uniform masks universal"
    from res obtain left p' where
      r1: "parse_diff full pos masks universal = Inr (left, p')" and
      r2: "parse_or_loop full left p' masks universal = Inr (v, q)"
      by (auto simp: parse_or.simps split: sum.splits prod.splits)
    from "2.hyps"(1) r1 n u have
      "cut_outcome (parse_diff (take n full) pos masks universal) n left p'" by blast
    then show "cut_outcome (parse_or (take n full) pos masks universal) n v q"
    proof (cases rule: cut_outcome_cases)
      case failed
      then show ?thesis by (auto simp: parse_or.simps cut_outcome_def)
    next
      case (complete v')
      with n show ?thesis
        by (simp add: parse_or.simps parse_or_loop_exit cut_outcome_def)
    next
      case same
      from r1 u have "length left = length universal"
        using parse_length(4) by blast
      with "2.hyps"(2) [OF r1 refl] r2 n u same(1) have
        "cut_outcome (parse_or_loop (take n full) left p' masks universal) n v q"
        by simp
      with same(2) show ?thesis by (simp add: parse_or.simps)
    qed
  qed
next
  case (3 full left pos masks universal)
  show ?case
  proof (intro allI impI)
    fix v q
    assume res: "parse_or_loop full left pos masks universal = Inr (v, q)"
      and n: "n \<le> length full" and u: "uniform masks universal"
      and le: "pos \<le> n" and l: "length left = length universal"
    show "cut_outcome (parse_or_loop (take n full) left pos masks universal) n v q"
    proof (cases "pos = n")
      case True
      with n show ?thesis
        by (simp add: parse_or_loop_exit cut_outcome_def)
    next
      case False
      with le have lt: "pos < n" by simp
      show ?thesis
      proof (cases "full ! pos = ''OR''")
        case False
        with res have "v = left" "q = pos"
          by (simp_all add: parse_or_loop_exit)
        with False lt n show ?thesis
          by (simp add: parse_or_loop_exit cut_outcome_def)
      next
        case True
        with lt n have guard: "pos < length full \<and> full ! pos = ''OR''" by simp
        from True lt n have tguard: "pos < length (take n full)" "take n full ! pos = ''OR''"
          by simp_all
        from res guard obtain right p' left' where
          r1: "parse_diff full (pos + 1) masks universal = Inr (right, p')" and
          r2: "np_or left right = Inr left'" and
          r3: "parse_or_loop full left' p' masks universal = Inr (v, q)"
          by (auto simp: parse_or_loop_step split: sum.splits prod.splits)
        from r1 u have lr: "length right = length universal"
          using parse_length(4) by blast
        from "3.hyps"(1) guard r1 n u have
          "cut_outcome (parse_diff (take n full) (pos + 1) masks universal) n right p'"
          by blast
        then show ?thesis
        proof (cases rule: cut_outcome_cases)
          case failed
          with tguard show ?thesis
            by (auto simp: parse_or_loop_step cut_outcome_def)
        next
          case (complete v')
          with u have "length v' = length universal"
            using parse_length(4) by blast
          with l obtain l' where "np_or left v' = Inr l'"
            using np_results_length(1) [of left "length universal" v'] by auto
          with complete tguard n show ?thesis
            by (simp add: parse_or_loop_step parse_or_loop_exit cut_outcome_def)
        next
          case same
          from l lr r2 have "length left' = length universal"
            using np_results_length(1) [of left "length universal" right] by auto
          with "3.hyps"(2) [OF guard r1 refl r2] r3 n u same(1) have
            "cut_outcome (parse_or_loop (take n full) left' p' masks universal) n v q"
            by simp
          with same(2) tguard r2 show ?thesis
            by (simp add: parse_or_loop_step)
        qed
      qed
    qed
  qed
next
  case (4 full pos masks universal)
  show ?case
  proof (intro allI impI)
    fix v q
    assume res: "parse_diff full pos masks universal = Inr (v, q)"
      and n: "n \<le> length full" and u: "uniform masks universal"
    from res obtain left p' where
      r1: "parse_xor full pos masks universal = Inr (left, p')" and
      r2: "parse_diff_loop full left p' masks universal = Inr (v, q)"
      by (auto simp: parse_diff.simps split: sum.splits prod.splits)
    from "4.hyps"(1) r1 n u have
      "cut_outcome (parse_xor (take n full) pos masks universal) n left p'" by blast
    then show "cut_outcome (parse_diff (take n full) pos masks universal) n v q"
    proof (cases rule: cut_outcome_cases)
      case failed
      then show ?thesis by (auto simp: parse_diff.simps cut_outcome_def)
    next
      case (complete v')
      with n show ?thesis
        by (simp add: parse_diff.simps parse_diff_loop_exit cut_outcome_def)
    next
      case same
      from r1 u have "length left = length universal"
        using parse_length(6) by blast
      with "4.hyps"(2) [OF r1 refl] r2 n u same(1) have
        "cut_outcome (parse_diff_loop (take n full) left p' masks universal) n v q"
        by simp
      with same(2) show ?thesis by (simp add: parse_diff.simps)
    qed
  qed
next
  case (5 full left pos masks universal)
  show ?case
  proof (intro allI impI)
    fix v q
    assume res: "parse_diff_loop full left pos masks universal = Inr (v, q)"
      and n: "n \<le> length full" and u: "uniform masks universal"
      and le: "pos \<le> n" and l: "length left = length universal"
    show "cut_outcome (parse_diff_loop (take n full) left pos masks universal) n v q"
    proof (cases "pos = n")
      case True
      with n show ?thesis
        by (simp add: parse_diff_loop_exit cut_outcome_def)
    next
      case False
      with le have lt: "pos < n" by simp
      show ?thesis
      proof (cases "full ! pos = ''DIFF''")
        case False
        with res have "v = left" "q = pos"
          by (simp_all add: parse_diff_loop_exit)
        with False lt n show ?thesis
          by (simp add: parse_diff_loop_exit cut_outcome_def)
      next
        case True
        with lt n have guard: "pos < length full \<and> full ! pos = ''DIFF''" by simp
        from True lt n have tguard: "pos < length (take n full)" "take n full ! pos = ''DIFF''"
          by simp_all
        from res guard obtain right p' left' where
          r1: "parse_xor full (pos + 1) masks universal = Inr (right, p')" and
          r2: "np_and left (np_invert right) = Inr left'" and
          r3: "parse_diff_loop full left' p' masks universal = Inr (v, q)"
          by (auto simp: parse_diff_loop_step split: sum.splits prod.splits)
        from r1 u have lr: "length right = length universal"
          using parse_length(6) by blast
        from "5.hyps"(1) guard r1 n u have
          "cut_outcome (parse_xor (take n full) (pos + 1) masks universal) n right p'"
          by blast
        then show ?thesis
        proof (cases rule: cut_outcome_cases)
          case failed
          with tguard show ?thesis
            by (auto simp: parse_diff_loop_step cut_outcome_def)
        next
          case (complete v')
          with u have "length v' = length universal"
            using parse_length(6) by blast
          with l obtain l' where "np_and left (np_invert v') = Inr l'"
            using np_results_length(4) [of left "length universal" v'] by auto
          with complete tguard n show ?thesis
            by (simp add: parse_diff_loop_step parse_diff_loop_exit cut_outcome_def)
        next
          case same
          from l lr r2 have "length left' = length universal"
            using np_results_length(4) [of left "length universal" right] by auto
          with "5.hyps"(2) [OF guard r1 refl r2] r3 n u same(1) have
            "cut_outcome (parse_diff_loop (take n full) left' p' masks universal) n v q"
            by simp
          with same(2) tguard r2 show ?thesis
            by (simp add: parse_diff_loop_step)
        qed
      qed
    qed
  qed
next
  case (6 full pos masks universal)
  show ?case
  proof (intro allI impI)
    fix v q
    assume res: "parse_xor full pos masks universal = Inr (v, q)"
      and n: "n \<le> length full" and u: "uniform masks universal"
    from res obtain left p' where
      r1: "parse_and full pos masks universal = Inr (left, p')" and
      r2: "parse_xor_loop full left p' masks universal = Inr (v, q)"
      by (auto simp: parse_xor.simps split: sum.splits prod.splits)
    from "6.hyps"(1) r1 n u have
      "cut_outcome (parse_and (take n full) pos masks universal) n left p'" by blast
    then show "cut_outcome (parse_xor (take n full) pos masks universal) n v q"
    proof (cases rule: cut_outcome_cases)
      case failed
      then show ?thesis by (auto simp: parse_xor.simps cut_outcome_def)
    next
      case (complete v')
      with n show ?thesis
        by (simp add: parse_xor.simps parse_xor_loop_exit cut_outcome_def)
    next
      case same
      from r1 u have "length left = length universal"
        using parse_length(8) by blast
      with "6.hyps"(2) [OF r1 refl] r2 n u same(1) have
        "cut_outcome (parse_xor_loop (take n full) left p' masks universal) n v q"
        by simp
      with same(2) show ?thesis by (simp add: parse_xor.simps)
    qed
  qed
next
  case (7 full left pos masks universal)
  show ?case
  proof (intro allI impI)
    fix v q
    assume res: "parse_xor_loop full left pos masks universal = Inr (v, q)"
      and n: "n \<le> length full" and u: "uniform masks universal"
      and le: "pos \<le> n" and l: "length left = length universal"
    show "cut_outcome (parse_xor_loop (take n full) left pos masks universal) n v q"
    proof (cases "pos = n")
      case True
      with n show ?thesis
        by (simp add: parse_xor_loop_exit cut_outcome_def)
    next
      case False
      with le have lt: "pos < n" by simp
      show ?thesis
      proof (cases "full ! pos = ''XOR''")
        case False
        with res have "v = left" "q = pos"
          by (simp_all add: parse_xor_loop_exit)
        with False lt n show ?thesis
          by (simp add: parse_xor_loop_exit cut_outcome_def)
      next
        case True
        with lt n have guard: "pos < length full \<and> full ! pos = ''XOR''" by simp
        from True lt n have tguard: "pos < length (take n full)" "take n full ! pos = ''XOR''"
          by simp_all
        from res guard obtain right p' left' where
          r1: "parse_and full (pos + 1) masks universal = Inr (right, p')" and
          r2: "np_xor left right = Inr left'" and
          r3: "parse_xor_loop full left' p' masks universal = Inr (v, q)"
          by (auto simp: parse_xor_loop_step split: sum.splits prod.splits)
        from r1 u have lr: "length right = length universal"
          using parse_length(8) by blast
        from "7.hyps"(1) guard r1 n u have
          "cut_outcome (parse_and (take n full) (pos + 1) masks universal) n right p'"
          by blast
        then show ?thesis
        proof (cases rule: cut_outcome_cases)
          case failed
          with tguard show ?thesis
            by (auto simp: parse_xor_loop_step cut_outcome_def)
        next
          case (complete v')
          with u have "length v' = length universal"
            using parse_length(8) by blast
          with l obtain l' where "np_xor left v' = Inr l'"
            using np_results_length(3) [of left "length universal" v'] by auto
          with complete tguard n show ?thesis
            by (simp add: parse_xor_loop_step parse_xor_loop_exit cut_outcome_def)
        next
          case same
          from l lr r2 have "length left' = length universal"
            using np_results_length(3) [of left "length universal" right] by auto
          with "7.hyps"(2) [OF guard r1 refl r2] r3 n u same(1) have
            "cut_outcome (parse_xor_loop (take n full) left' p' masks universal) n v q"
            by simp
          with same(2) tguard r2 show ?thesis
            by (simp add: parse_xor_loop_step)
        qed
      qed
    qed
  qed
next
  case (8 full pos masks universal)
  show ?case
  proof (intro allI impI)
    fix v q
    assume res: "parse_and full pos masks universal = Inr (v, q)"
      and n: "n \<le> length full" and u: "uniform masks universal"
    from res obtain left p' where
      r1: "parse_not full pos masks universal = Inr (left, p')" and
      r2: "parse_and_loop full left p' masks universal = Inr (v, q)"
      by (auto simp: parse_and.simps split: sum.splits prod.splits)
    from "8.hyps"(1) r1 n u have
      "cut_outcome (parse_not (take n full) pos masks universal) n left p'" by blast
    then show "cut_outcome (parse_and (take n full) pos masks universal) n v q"
    proof (cases rule: cut_outcome_cases)
      case failed
      then show ?thesis by (auto simp: parse_and.simps cut_outcome_def)
    next
      case (complete v')
      with n show ?thesis
        by (simp add: parse_and.simps parse_and_loop_exit cut_outcome_def)
    next
      case same
      from r1 u have "length left = length universal"
        using parse_length(10) by blast
      with "8.hyps"(2) [OF r1 refl] r2 n u same(1) have
        "cut_outcome (parse_and_loop (take n full) left p' masks universal) n v q"
        by simp
      with same(2) show ?thesis by (simp add: parse_and.simps)
    qed
  qed
next
  case (9 full left pos masks universal)
  show ?case
  proof (intro allI impI)
    fix v q
    assume res: "parse_and_loop full left pos masks universal = Inr (v, q)"
      and n: "n \<le> length full" and u: "uniform masks universal"
      and le: "pos \<le> n" and l: "length left = length universal"
    show "cut_outcome (parse_and_loop (take n full) left pos masks universal) n v q"
    proof (cases "pos = n")
      case True
      with n show ?thesis
        by (simp add: parse_and_loop_exit cut_outcome_def)
    next
      case False
      with le have lt: "pos < n" by simp
      show ?thesis
      proof (cases "full ! pos = ''AND''")
        case False
        with res have "v = left" "q = pos"
          by (simp_all add: parse_and_loop_exit)
        with False lt n show ?thesis
          by (simp add: parse_and_loop_exit cut_outcome_def)
      next
        case True
        with lt n have guard: "pos < length full \<and> full ! pos = ''AND''" by simp
        from True lt n have tguard: "pos < length (take n full)" "take n full ! pos = ''AND''"
          by simp_all
        from res guard obtain right p' left' where
          r1: "parse_not full (pos + 1) masks universal = Inr (right, p')" and
          r2: "np_and left right = Inr left'" and
          r3: "parse_and_loop full left' p' masks universal = Inr (v, q)"
          by (auto simp: parse_and_loop_step split: sum.splits prod.splits)
        from r1 u have lr: "length right = length universal"
          using parse_length(10) by blast
        from "9.hyps"(1) guard r1 n u have
          "cut_outcome (parse_not (take n full) (pos + 1) masks universal) n right p'"
          by blast
        then show ?thesis
        proof (cases rule: cut_outcome_cases)
          case failed
          with tguard show ?thesis
            by (auto simp: parse_and_loop_step cut_outcome_def)
        next
          case (complete v')
          with u have "length v' = length universal"
            using parse_length(10) by blast
          with l obtain l' where "np_and left v' = Inr l'"
            using np_results_length(2) [of left "length universal" v'] by auto
          with complete tguard n show ?thesis
            by (simp add: parse_and_loop_step parse_and_loop_exit cut_outcome_def)
        next
          case same
          from l lr r2 have "length left' = length universal"
            using np_results_length(2) [of left "length universal" right] by auto
          with "9.hyps"(2) [OF guard r1 refl r2] r3 n u same(1) have
            "cut_outcome (parse_and_loop (take n full) left' p' masks universal) n v q"
            by simp
          with same(2) tguard r2 show ?thesis
            by (simp add: parse_and_loop_step)
        qed
      qed
    qed
  qed
next
  case (10 full pos masks universal)
  show ?case
  proof (intro allI impI)
    fix v q
    assume res: "parse_not full pos masks universal = Inr (v, q)"
      and n: "n \<le> length full" and u: "uniform masks universal"
    from res obtain operand p' where
      r1: "parse_atom full pos masks universal = Inr (operand, p')"
      by (auto simp: parse_not.simps split: sum.splits prod.splits)
    from "10.hyps" r1 n u have
      "cut_outcome (parse_atom (take n full) pos masks universal) n operand p'" by blast
    then show "cut_outcome (parse_not (take n full) pos masks universal) n v q"
    proof (cases rule: cut_outcome_cases)
      case failed
      then show ?thesis by (auto simp: parse_not.simps cut_outcome_def)
    next
      case (complete v')
      with n show ?thesis
        by (simp add: parse_not.simps cut_outcome_def)
    next
      case same
      show ?thesis
      proof (cases "full ! p' = ''NOT''")
        case True
        with res r1 same(1) n have "np_and universal (np_invert operand) = Inr v" "q = p' + 1"
          by (auto simp: parse_not.simps split: sum.splits)
        with True same n show ?thesis
          by (cases "p' + 1 = n") (auto simp: parse_not.simps cut_outcome_def)
      next
        case False
        with res r1 have "v = operand" "q = p'"
          by (auto simp: parse_not.simps)
        with False same n show ?thesis
          by (auto simp: parse_not.simps cut_outcome_def)
      qed
    qed
  qed
next
  case (11 full pos masks universal)
  show ?case
  proof (intro allI impI)
    fix v q
    assume res: "parse_atom full pos masks universal = Inr (v, q)"
      and n: "n \<le> length full" and u: "uniform masks universal"
    then have lt: "pos < length full"
      by (simp add: parse_atom.simps split: if_splits)
    show "cut_outcome (parse_atom (take n full) pos masks universal) n v q"
    proof (cases "pos < n")
      case False
      with n show ?thesis
        by (simp add: parse_atom.simps cut_outcome_def)
    next
      case pn: True
      show ?thesis
      proof (cases "full ! pos = ''(''")
        case True
        with res lt obtain p' where
          r1: "parse_expression full (pos + 1) masks universal = Inr (v, p')" and
          r2: "p' < length full" "full ! p' = '')''" "q = p' + 1"
          by (auto simp: parse_atom.simps split: sum.splits prod.splits if_splits)
        from "11.hyps" lt True r1 n u have
          "cut_outcome (parse_expression (take n full) (pos + 1) masks universal) n v p'"
          by simp
        then show ?thesis
        proof (cases rule: cut_outcome_cases)
          case failed
          with True pn n show ?thesis
            by (auto simp: parse_atom.simps cut_outcome_def)
        next
          case (complete v')
          with True pn n show ?thesis
            by (simp add: parse_atom.simps cut_outcome_def)
        next
          case same
          with True pn n r2 show ?thesis
            by (cases "p' + 1 = n") (auto simp: parse_atom.simps cut_outcome_def)
        qed
      next
        case False
        with res lt have "masks (full ! pos) = Some v" "q = pos + 1"
          by (auto simp: parse_atom.simps split: option.splits)
        with False pn n show ?thesis
          by (cases "pos + 1 = n") (auto simp: parse_atom.simps cut_outcome_def)
      qed
    qed
  qed
qed

section \<open>Facts about the tokenizer and strip\<close>

lemma tokenize_loop_unknown:
  "find (\<lambda>c. \<not> recognized c) (drop i expr) = Some c \<Longrightarrow>
     tokenize_loop expr i tokens = Inl (Unknown_character c)"
proof (induction expr i tokens rule: tokenize_loop.induct)
  case (1 expr i tokens)
  show ?case
  proof (cases "i < length expr")
    case False
    with "1.prems" show ?thesis by simp
  next
    case True
    then have d: "drop i expr = expr ! i # drop (i + 1) expr"
      by (simp add: Cons_nth_drop_Suc)
    show ?thesis
    proof (cases "recognized (expr ! i)")
      case False
      with True d "1.prems" show ?thesis
        by (subst tokenize_loop.simps) (auto simp: recognized_def)
    next
      case r: True
      with d "1.prems" have f: "find (\<lambda>c. \<not> recognized c) (drop (i + 1) expr) = Some c"
        by simp
      from r True "1.IH" f show ?thesis
        by (subst tokenize_loop.simps) (auto simp: recognized_def)
    qed
  qed
qed

lemma find_unrecognized_strip:
  "find (\<lambda>c. \<not> recognized c) (strip s) = find (\<lambda>c. \<not> recognized c) s"
proof -
  have drop_front: "find (\<lambda>c. \<not> recognized c) (dropWhile isspace xs) = find (\<lambda>c. \<not> recognized c) xs"
    for xs
    by (induction xs) (auto simp: recognized_def)
  have drop_back:
    "find (\<lambda>c. \<not> recognized c) (rev (dropWhile isspace (rev xs))) = find (\<lambda>c. \<not> recognized c) xs"
    for xs
  proof (induction xs rule: rev_induct)
    case Nil
    show ?case by simp
  next
    case (snoc x xs)
    show ?case
    proof (cases "isspace x")
      case True
      then have "find (\<lambda>c. \<not> recognized c) (xs @ [x]) = find (\<lambda>c. \<not> recognized c) xs"
        by (induction xs) (auto simp: recognized_def)
      with True snoc show ?thesis by simp
    next
      case False
      then show ?thesis by simp
    qed
  qed
  show ?thesis
    by (simp add: strip_def drop_back drop_front)
qed

lemma strip_blank:
  assumes "\<forall>c\<in>set s. isspace c"
  shows "strip s = []"
  using assms by (auto simp: strip_def dest: set_dropWhileD)

section \<open>Operator precedence\<close>

text \<open>
  The value of each three-operand formula, as the numpy expression it stands for. An operator
  that raises (operands that cannot be broadcast) makes the evaluation raise the same error.
\<close>

lemma eval_A_or_B_diff_C:
  assumes "masks ''A'' = Some a" and "masks ''B'' = Some b" and "masks ''C'' = Some c"
  shows "safe_evaluate self ''A U B - C'' masks =
           (case np_and b (np_invert c) of Inl e \<Rightarrow> Inl e | Inr d \<Rightarrow> np_or a d)"
  using assms
  by (cases "np_and b (np_invert c)"; cases "np_or a (projr (np_and b (np_invert c)))")
     (simp_all add: safe_evaluate_def tokens_A_or_B_diff_C parse_simps)

lemma eval_A_diff_B_or_C:
  assumes "masks ''A'' = Some a" and "masks ''B'' = Some b" and "masks ''C'' = Some c"
  shows "safe_evaluate self ''A - B U C'' masks =
           (case np_and a (np_invert b) of Inl e \<Rightarrow> Inl e | Inr d \<Rightarrow> np_or d c)"
  using assms
  by (cases "np_and a (np_invert b)"; cases "np_or (projr (np_and a (np_invert b))) c")
     (simp_all add: safe_evaluate_def tokens_A_diff_B_or_C parse_simps)

lemma eval_A_diff_B_xor_C:
  assumes "masks ''A'' = Some a" and "masks ''B'' = Some b" and "masks ''C'' = Some c"
  shows "safe_evaluate self ''A - B ^ C'' masks =
           (case np_xor b c of Inl e \<Rightarrow> Inl e | Inr d \<Rightarrow> np_and a (np_invert d))"
  using assms
  by (cases "np_xor b c"; cases "np_and a (np_invert (projr (np_xor b c)))")
     (simp_all add: safe_evaluate_def tokens_A_diff_B_xor_C parse_simps)

lemma eval_A_xor_B_diff_C:
  assumes "masks ''A'' = Some a" and "masks ''B'' = Some b" and "masks ''C'' = Some c"
  shows "safe_evaluate self ''A ^ B - C'' masks =
           (case np_xor a b of Inl e \<Rightarrow> Inl e | Inr d \<Rightarrow> np_and d (np_invert c))"
  using assms
  by (cases "np_xor a b"; cases "np_and (projr (np_xor a b)) (np_invert c)")
     (simp_all add: safe_evaluate_def tokens_A_xor_B_diff_C parse_simps)

lemma eval_A_xor_B_and_C:
  assumes "masks ''A'' = Some a" and "masks ''B'' = Some b" and "masks ''C'' = Some c"
  shows "safe_evaluate self ''A ^ B & C'' masks =
           (case np_and b c of Inl e \<Rightarrow> Inl e | Inr d \<Rightarrow> np_xor a d)"
  using assms
  by (cases "np_and b c"; cases "np_xor a (projr (np_and b c))")
     (simp_all add: safe_evaluate_def tokens_A_xor_B_and_C parse_simps)

lemma eval_A_and_B_xor_C:
  assumes "masks ''A'' = Some a" and "masks ''B'' = Some b" and "masks ''C'' = Some c"
  shows "safe_evaluate self ''A & B ^ C'' masks =
           (case np_and a b of Inl e \<Rightarrow> Inl e | Inr d \<Rightarrow> np_xor d c)"
  using assms
  by (cases "np_and a b"; cases "np_xor (projr (np_and a b)) c")
     (simp_all add: safe_evaluate_def tokens_A_and_B_xor_C parse_simps)

lemma eval_A_and_B_not:
  assumes "masks ''A'' = Some a" and "masks ''B'' = Some b"
  shows "safe_evaluate self ''A & B.'' masks =
           (case np_and (np_ones (length (points self))) (np_invert b) of
              Inl e \<Rightarrow> Inl e
            | Inr d \<Rightarrow> np_and a d)"
  using assms
  by (cases "np_and (np_ones (length (points self))) (np_invert b)";
      cases "np_and a (projr (np_and (np_ones (length (points self))) (np_invert b)))")
     (simp_all add: safe_evaluate_def tokens_A_and_B_not parse_simps)

lemma eval_diff_or_elementwise:
  assumes "masks ''A'' = Some a" and "masks ''B'' = Some b" and "masks ''C'' = Some c"
    and "length a = length b" and "length b = length c"
  shows "safe_evaluate self ''A U B - C'' masks =
           Inr (map2 (\<or>) a (map2 (\<lambda>x y. x \<and> \<not> y) b c))"
    and "safe_evaluate self ''A - B U C'' masks =
           Inr (map2 (\<or>) (map2 (\<lambda>x y. x \<and> \<not> y) a b) c)"
  using assms
  by (simp_all add: eval_A_or_B_diff_C eval_A_diff_B_or_C np_diff_same_length
      np_or_same_length)

text \<open>
  Claim C1. The precedence of the evaluator, tightest first, is postfix Not, And, Xor, Diff,
  Or. For every membership map with vectors \<open>a\<close>, \<open>b\<close>, \<open>c\<close> for \<open>A\<close>, \<open>B\<close>,
  \<open>C\<close>: \<open>A U B - C\<close> is \<open>a | (b & ~c)\<close> and \<open>A - B U C\<close> is \<open>(a & ~b) | c\<close>
  (Diff binds tighter than Or); \<open>A - B ^ C\<close> is \<open>a & ~(b ^ c)\<close> and \<open>A ^ B - C\<close>
  is \<open>(a ^ b) & ~c\<close> (Xor binds tighter than Diff); \<open>A ^ B & C\<close> is \<open>a ^ (b & c)\<close>
  and \<open>A & B ^ C\<close> is \<open>(a & b) ^ c\<close> (And binds tighter than Xor); and \<open>A & B.\<close> is
  \<open>a & (universal & ~b)\<close> (the postfix Not binds tighter than And). The right-hand
  sides are the numpy expressions, with the error of an operator that raises; for vectors of
  one length the first two are written out elementwise.
\<close>

theorem operator_precedence:
  assumes "masks ''A'' = Some a" and "masks ''B'' = Some b" and "masks ''C'' = Some c"
  shows "safe_evaluate self ''A U B - C'' masks =
           (case np_and b (np_invert c) of Inl e \<Rightarrow> Inl e | Inr d \<Rightarrow> np_or a d) \<and>
         safe_evaluate self ''A - B U C'' masks =
           (case np_and a (np_invert b) of Inl e \<Rightarrow> Inl e | Inr d \<Rightarrow> np_or d c) \<and>
         (length a = length b \<and> length b = length c \<longrightarrow>
            safe_evaluate self ''A U B - C'' masks =
              Inr (map2 (\<or>) a (map2 (\<lambda>x y. x \<and> \<not> y) b c)) \<and>
            safe_evaluate self ''A - B U C'' masks =
              Inr (map2 (\<or>) (map2 (\<lambda>x y. x \<and> \<not> y) a b) c)) \<and>
         safe_evaluate self ''A - B ^ C'' masks =
           (case np_xor b c of Inl e \<Rightarrow> Inl e | Inr d \<Rightarrow> np_and a (np_invert d)) \<and>
         safe_evaluate self ''A ^ B - C'' masks =
           (case np_xor a b of Inl e \<Rightarrow> Inl e | Inr d \<Rightarrow> np_and d (np_invert c)) \<and>
         safe_evaluate self ''A ^ B & C'' masks =
           (case np_and b c of Inl e \<Rightarrow> Inl e | Inr d \<Rightarrow> np_xor a d) \<and>
         safe_evaluate self ''A & B ^ C'' masks =
           (case np_and a b of Inl e \<Rightarrow> Inl e | Inr d \<Rightarrow> np_xor d c) \<and>
         safe_evaluate self ''A & B.'' masks =
           (case np_and (np_ones (length (points self))) (np_invert b) of
              Inl e \<Rightarrow> Inl e
            | Inr d \<Rightarrow> np_and a d)"
proof -
  have "length a = length b \<and> length b = length c \<longrightarrow>
      safe_evaluate self ''A U B - C'' masks =
        Inr (map2 (\<or>) a (map2 (\<lambda>x y. x \<and> \<not> y) b c)) \<and>
      safe_evaluate self ''A - B U C'' masks =
        Inr (map2 (\<or>) (map2 (\<lambda>x y. x \<and> \<not> y) a b) c)"
    using assms eval_diff_or_elementwise [of masks a b c self] by blast
  with assms show ?thesis
    using eval_A_or_B_diff_C [of masks a b c self] eval_A_diff_B_or_C [of masks a b c self]
      eval_A_diff_B_xor_C [of masks a b c self] eval_A_xor_B_diff_C [of masks a b c self]
      eval_A_xor_B_and_C [of masks a b c self] eval_A_and_B_xor_C [of masks a b c self]
      eval_A_and_B_not [of masks a b self]
    by blast
qed

theorem operator_precedence_witness:
  "safe_evaluate \<lparr>points = [()], in_circle = (\<lambda>k p. False)\<rparr> ''A U B - C''
      [''A'' \<mapsto> [True], ''B'' \<mapsto> [True], ''C'' \<mapsto> [True]] = Inr [True] \<and>
   safe_evaluate \<lparr>points = [()], in_circle = (\<lambda>k p. False)\<rparr> ''A - B U C''
      [''A'' \<mapsto> [True], ''B'' \<mapsto> [True], ''C'' \<mapsto> [True]] = Inr [True] \<and>
   safe_evaluate \<lparr>points = [()], in_circle = (\<lambda>k p. False)\<rparr> ''A - B ^ C''
      [''A'' \<mapsto> [True], ''B'' \<mapsto> [True], ''C'' \<mapsto> [True]] = Inr [True] \<and>
   safe_evaluate \<lparr>points = [()], in_circle = (\<lambda>k p. False)\<rparr> ''A ^ B - C''
      [''A'' \<mapsto> [True], ''B'' \<mapsto> [True], ''C'' \<mapsto> [True]] = Inr [False] \<and>
   safe_evaluate \<lparr>points = [()], in_circle = (\<lambda>k p. False)\<rparr> ''A ^ B & C''
      [''A'' \<mapsto> [True], ''B'' \<mapsto> [True], ''C'' \<mapsto> [True]] = Inr [False] \<and>
   safe_evaluate \<lparr>points = [()], in_circle = (\<lambda>k p. False)\<rparr> ''A & B ^ C''
      [''A'' \<mapsto> [True], ''B'' \<mapsto> [True], ''C'' \<mapsto> [True]] = Inr [False] \<and>
   safe_evaluate \<lparr>points = [()], in_circle = (\<lambda>k p. False)\<rparr> ''A & B.''
      [''A'' \<mapsto> [True], ''B'' \<mapsto> [True], ''C'' \<mapsto> [True]] = Inr [False]"
  using operator_precedence
    [of "[''A'' \<mapsto> [True], ''B'' \<mapsto> [True], ''C'' \<mapsto> [True]]" "[True]" "[True]" "[True]"
        "\<lparr>points = [()], in_circle = (\<lambda>k p. False)\<rparr>"]
  by (simp add: np_and_def np_or_def np_xor_def np_binop_def np_invert_def np_ones_def)

section \<open>The binary operators\<close>

text \<open>
  Claim C2. For every membership map whose vectors for \<open>A\<close> and \<open>B\<close> have one
  length, \<open>A U B\<close> evaluates to their elementwise OR, \<open>A & B\<close> to their elementwise
  AND, \<open>A ^ B\<close> to their elementwise XOR, and \<open>A - B\<close> to \<open>A\<close> AND NOT \<open>B\<close>,
  elementwise.
\<close>

theorem binary_operators_elementwise:
  assumes "masks ''A'' = Some a" and "masks ''B'' = Some b" and "length a = length b"
  shows "safe_evaluate self ''A U B'' masks = Inr (map2 (\<or>) a b) \<and>
         safe_evaluate self ''A & B'' masks = Inr (map2 (\<and>) a b) \<and>
         safe_evaluate self ''A ^ B'' masks = Inr (map2 (\<noteq>) a b) \<and>
         safe_evaluate self ''A - B'' masks = Inr (map2 (\<lambda>x y. x \<and> \<not> y) a b)"
  using assms
  by (simp add: safe_evaluate_def tokens_A_or_B tokens_A_and_B tokens_A_xor_B tokens_A_diff_B
      parse_simps np_or_same_length np_and_same_length np_xor_same_length np_diff_same_length)

theorem binary_operators_elementwise_witness:
  "safe_evaluate \<lparr>points = [(), ()], in_circle = (\<lambda>k p. False)\<rparr> ''A U B''
      [''A'' \<mapsto> [True, False], ''B'' \<mapsto> [True, True]] = Inr [True, True] \<and>
   safe_evaluate \<lparr>points = [(), ()], in_circle = (\<lambda>k p. False)\<rparr> ''A & B''
      [''A'' \<mapsto> [True, False], ''B'' \<mapsto> [True, True]] = Inr [True, False] \<and>
   safe_evaluate \<lparr>points = [(), ()], in_circle = (\<lambda>k p. False)\<rparr> ''A ^ B''
      [''A'' \<mapsto> [True, False], ''B'' \<mapsto> [True, True]] = Inr [False, True] \<and>
   safe_evaluate \<lparr>points = [(), ()], in_circle = (\<lambda>k p. False)\<rparr> ''A - B''
      [''A'' \<mapsto> [True, False], ''B'' \<mapsto> [True, True]] = Inr [False, False]"
  using binary_operators_elementwise
    [of "[''A'' \<mapsto> [True, False], ''B'' \<mapsto> [True, True]]" "[True, False]" "[True, True]"
        "\<lparr>points = [(), ()], in_circle = (\<lambda>k p. False)\<rparr>"]
  by simp

section \<open>The postfix Not\<close>

text \<open>
  Claim C3. For every membership map whose vector \<open>a\<close> for \<open>A\<close> ranges over the
  universe (one entry for each point), \<open>A.\<close> evaluates to the elementwise complement of
  what \<open>A\<close> evaluates to. Whenever a Not token follows an atom, \<^verbatim>\<open>_parse_not\<close>
  consumes exactly that one token and returns \<open>universal & ~operand\<close>, which is the
  complement of the operand when \<open>universal\<close> is the all-true vector of its length.
\<close>

theorem postfix_not_complements:
  assumes "masks ''A'' = Some a" and "length a = length (points self)"
    and "parse_atom tokens pos masks' universal = Inr (operand, pos')"
    and "pos' < length tokens" and "tokens ! pos' = ''NOT''"
  shows "safe_evaluate self ''A'' masks = Inr a \<and>
         safe_evaluate self ''A.'' masks = Inr (map Not a) \<and>
         parse_not tokens pos masks' universal =
           (case np_and universal (np_invert operand) of
              Inl e \<Rightarrow> Inl e
            | Inr r \<Rightarrow> Inr (r, pos' + 1)) \<and>
         np_and (np_ones (length operand)) (np_invert operand) = Inr (map Not operand)"
  using assms
  by (simp add: safe_evaluate_def tokens_A tokens_A_not parse_simps np_complement)

theorem postfix_not_complements_witness:
  "safe_evaluate \<lparr>points = [(), ()], in_circle = (\<lambda>k p. False)\<rparr> ''A''
     [''A'' \<mapsto> [True, False]] = Inr [True, False] \<and>
   safe_evaluate \<lparr>points = [(), ()], in_circle = (\<lambda>k p. False)\<rparr> ''A.''
     [''A'' \<mapsto> [True, False]] = Inr [False, True] \<and>
   parse_not [''B'', ''NOT''] 0 [''B'' \<mapsto> [False, False]] [True, True]
     = Inr ([True, True], 2)"
proof -
  have atom: "parse_atom [''B'', ''NOT''] 0 [''B'' \<mapsto> [False, False]] [True, True]
                = Inr ([False, False], 1)"
    by (simp add: parse_atom.simps)
  from postfix_not_complements
    [of "[''A'' \<mapsto> [True, False]]" "[True, False]"
        "\<lparr>points = [(), ()], in_circle = (\<lambda>k p. False)\<rparr>"
        "[''B'', ''NOT'']" 0 "[''B'' \<mapsto> [False, False]]" "[True, True]" "[False, False]" 1]
    atom
  show ?thesis
    by (simp add: np_and_def np_binop_def np_invert_def)
qed

text \<open>
  Claim C4 says that \<open>A..\<close> is rejected. It is not: \<^verbatim>\<open>_parse_not\<close> consumes the
  first Not, no loop consumes the second, and \<^verbatim>\<open>_safe_evaluate\<close> drops the position
  that the parser returns. Here \<open>A..\<close> evaluates to the complement of \<open>[True]\<close>.
\<close>

theorem double_not_counterexample:
  "safe_evaluate \<lparr>points = [()], in_circle = (\<lambda>k p. False)\<rparr> ''A..'' [''A'' \<mapsto> [True]]
     = Inr [False]"
  by (simp add: safe_evaluate_def tokens_A_not_not parse_simps np_complement)

text \<open>
  Claim C4, amended. For every membership map whose vector \<open>a\<close> for \<open>A\<close> ranges over
  the universe, evaluating \<open>A..\<close> succeeds: the second Not token is left unconsumed and
  ignored, and the result is that of \<open>A.\<close>, the complement of \<open>a\<close>.
\<close>

theorem double_not_is_accepted:
  assumes "masks ''A'' = Some a" and "length a = length (points self)"
  shows "safe_evaluate self ''A..'' masks = Inr (map Not a) \<and>
         safe_evaluate self ''A..'' masks = safe_evaluate self ''A.'' masks"
  using assms
  by (simp add: safe_evaluate_def tokens_A_not tokens_A_not_not parse_simps np_complement)

theorem double_not_is_accepted_witness:
  "safe_evaluate \<lparr>points = [(), ()], in_circle = (\<lambda>k p. False)\<rparr> ''A..''
     [''A'' \<mapsto> [True, False]] = Inr [False, True]"
  using double_not_is_accepted
    [of "[''A'' \<mapsto> [True, False]]" "[True, False]"
        "\<lparr>points = [(), ()], in_circle = (\<lambda>k p. False)\<rparr>"]
  by simp

section \<open>Tokens after the expression\<close>

text \<open>
  Claim C5. When the token stream of a formula is a well-formed expression \<open>ts\<close> (the
  parser consumes all of it) followed by further tokens \<open>rest\<close> that cannot extend it
  (the first of them is no binary operator, and it is a Not only if \<open>ts\<close> already ends
  with a Not; the reserved word \<open>NOT\<close> is then no set name of the map), evaluation returns
  the value of \<open>ts\<close> and raises no error: the remaining tokens are never looked at.
\<close>

theorem trailing_tokens_discarded:
  assumes "tokenize (strip expr) = Inr (ts @ rest)"
    and "parse_expression ts 0 masks (np_ones (length (points self))) = Inr (v, length ts)"
    and "rest \<noteq> []"
    and "hd rest \<notin> set [''AND'', ''XOR'', ''DIFF'', ''OR'']"
    and "hd rest = ''NOT'' \<longrightarrow> last ts = ''NOT'' \<and> masks ''NOT'' = None"
  shows "safe_evaluate self expr masks = Inr v"
proof -
  from assms(2) have "0 < length ts"
    using parse_bounds(1) by fastforce
  then have "last ts = ts ! (length ts - 1)"
    by (simp add: last_conv_nth)
  with assms(5) \<open>0 < length ts\<close> have "not_stops masks ts rest (length ts)"
    by (auto simp: not_stops_def)
  moreover from assms(4) have
    "loop_stops [''AND'', ''XOR'', ''DIFF'', ''OR''] ts rest (length ts)"
    by (simp add: loop_stops_def)
  ultimately have
    "parse_expression (ts @ rest) 0 masks (np_ones (length (points self))) = Inr (v, length ts)"
    using parse_append(1) assms(2) by blast
  with assms(1) show ?thesis
    by (simp add: safe_evaluate_def)
qed

theorem trailing_tokens_discarded_witness:
  "safe_evaluate \<lparr>points = [(), ()], in_circle = (\<lambda>k p. False)\<rparr> ''A B''
     [''A'' \<mapsto> [True, False], ''B'' \<mapsto> [True, True]] = Inr [True, False] \<and>
   safe_evaluate \<lparr>points = [(), ()], in_circle = (\<lambda>k p. False)\<rparr> ''A ) ''
     [''A'' \<mapsto> [True, False], ''B'' \<mapsto> [True, True]] = Inr [True, False] \<and>
   safe_evaluate \<lparr>points = [(), ()], in_circle = (\<lambda>k p. False)\<rparr> ''A..''
     [''A'' \<mapsto> [True, False], ''B'' \<mapsto> [True, True]] = Inr [False, True]"
proof -
  let ?self = "\<lparr>points = [(), ()], in_circle = (\<lambda>k p. False)\<rparr> :: unit visualizer"
  let ?m = "[''A'' \<mapsto> [True, False], ''B'' \<mapsto> [True, True]]"
  have p1: "parse_expression [''A''] 0 ?m (np_ones (length (points ?self)))
              = Inr ([True, False], length [''A''])"
    by (simp add: parse_simps)
  have p2: "parse_expression [''A'', ''NOT''] 0 ?m (np_ones (length (points ?self)))
              = Inr ([False, True], length [''A'', ''NOT''])"
    by (simp add: parse_simps np_complement)
  have "safe_evaluate ?self ''A B'' ?m = Inr [True, False]"
    by (rule trailing_tokens_discarded [OF tokens_A_B p1]) simp_all
  moreover have "safe_evaluate ?self ''A ) '' ?m = Inr [True, False]"
    by (rule trailing_tokens_discarded [OF tokens_A_close p1]) simp_all
  moreover have "safe_evaluate ?self ''A..'' ?m = Inr [False, True]"
    by (rule trailing_tokens_discarded [OF tokens_A_not_not_split p2]) simp_all
  ultimately show ?thesis by simp
qed

section \<open>Atoms\<close>

lemma eval_set_name:
  assumes "x \<in> set ''ABC''"
  shows "safe_evaluate self [x] masks =
           (case masks [x] of Some m \<Rightarrow> Inr m | None \<Rightarrow> Inl (Unexpected_token [x]))"
  using assms
  by (cases "masks [x]") (auto simp: safe_evaluate_def tokens_set_name parse_simps)

text \<open>
  Claim C6 says that a set name without an entry in the membership map fails with an error of
  its own, distinct from the one for an operator at atom position. The source has one
  \<^verbatim>\<open>else\<close> branch for both: \<open>C\<close>, absent from the map, and the operator \<open>U\<close> fail
  with the same \<^verbatim>\<open>Unexpected token\<close> error.
\<close>

theorem unknown_set_counterexample:
  "safe_evaluate \<lparr>points = [()], in_circle = (\<lambda>k p. True)\<rparr> ''C''
     [''A'' \<mapsto> [True], ''B'' \<mapsto> [False]] = Inl (Unexpected_token ''C'') \<and>
   safe_evaluate \<lparr>points = [()], in_circle = (\<lambda>k p. True)\<rparr> ''U''
     [''A'' \<mapsto> [True], ''B'' \<mapsto> [False]] = Inl (Unexpected_token ''OR'')"
  by (simp add: safe_evaluate_def tokens_C tokens_U parse_simps)

text \<open>
  Claim C6, amended. A token at atom position other than the opening parenthesis resolves to
  its vector in the membership map; a token without an entry, be it a set name or an operator,
  fails with \<^verbatim>\<open>Unexpected token\<close> carrying the token. So a formula that is one set name
  evaluates to the vector of that name, or fails with \<^verbatim>\<open>Unexpected token\<close>.
\<close>

theorem set_reference_resolution:
  assumes "pos < length tokens" and "tokens ! pos \<noteq> ''(''" and "x \<in> set ''ABC''"
  shows "parse_atom tokens pos masks universal =
           (case masks (tokens ! pos) of
              Some m \<Rightarrow> Inr (m, pos + 1)
            | None \<Rightarrow> Inl (Unexpected_token (tokens ! pos))) \<and>
         safe_evaluate self [x] masks =
           (case masks [x] of Some m \<Rightarrow> Inr m | None \<Rightarrow> Inl (Unexpected_token [x]))"
  using assms eval_set_name [of x self masks] by (simp add: parse_atom.simps)

theorem set_reference_resolution_witness:
  "parse_atom [''B'', ''AND'', ''C''] 0 [''A'' \<mapsto> [True], ''B'' \<mapsto> [False]] [True]
     = Inr ([False], 1) \<and>
   parse_atom [''B'', ''AND'', ''C''] 2 [''A'' \<mapsto> [True], ''B'' \<mapsto> [False]] [True]
     = Inl (Unexpected_token ''C'') \<and>
   parse_atom [''B'', ''AND'', ''C''] 1 [''A'' \<mapsto> [True], ''B'' \<mapsto> [False]] [True]
     = Inl (Unexpected_token ''AND'') \<and>
   safe_evaluate \<lparr>points = [()], in_circle = (\<lambda>k p. True)\<rparr> ''B''
     [''A'' \<mapsto> [True], ''B'' \<mapsto> [False]] = Inr [False] \<and>
   safe_evaluate \<lparr>points = [()], in_circle = (\<lambda>k p. True)\<rparr> ''C''
     [''A'' \<mapsto> [True], ''B'' \<mapsto> [False]] = Inl (Unexpected_token ''C'')"
  using
    set_reference_resolution [of 0 "[''B'', ''AND'', ''C'']" "CHR ''B''"
      "[''A'' \<mapsto> [True], ''B'' \<mapsto> [False]]" "[True]"
      "\<lparr>points = [()], in_circle = (\<lambda>k p. True)\<rparr>"]
    set_reference_resolution [of 2 "[''B'', ''AND'', ''C'']" "CHR ''C''"
      "[''A'' \<mapsto> [True], ''B'' \<mapsto> [False]]" "[True]"
      "\<lparr>points = [()], in_circle = (\<lambda>k p. True)\<rparr>"]
    set_reference_resolution [of 1 "[''B'', ''AND'', ''C'']" "CHR ''C''"
      "[''A'' \<mapsto> [True], ''B'' \<mapsto> [False]]" "[True]"
      "\<lparr>points = [()], in_circle = (\<lambda>k p. True)\<rparr>"]
  by simp

section \<open>Unknown characters\<close>

text \<open>
  Claim C7 says that the error for an unknown character carries the character and its
  position. The \<^verbatim>\<open>ValueError\<close> of \<^verbatim>\<open>_tokenize\<close> is built from the character
  alone: the same error results for the unknown character at index 1 and at index 2.
\<close>

theorem unknown_character_position_counterexample:
  "tokenize ''A#'' = Inl (Unknown_character CHR ''#'') \<and>
   tokenize ''AA#'' = Inl (Unknown_character CHR ''#'')"
  by code_simp

text \<open>
  Claim C7, amended. For every formula that contains a character which is neither whitespace
  nor in the alphabet, tokenization fails with \<^verbatim>\<open>Unknown character\<close> carrying the first
  such character (and no position), and so does the evaluation: no vector is returned.
\<close>

theorem unknown_character_error:
  assumes "c \<in> set expr" and "\<not> recognized c"
  shows "\<exists>c'. find (\<lambda>c. \<not> recognized c) expr = Some c' \<and>
              tokenize expr = Inl (Unknown_character c') \<and>
              safe_evaluate self expr masks = Inl (Unknown_character c')"
proof -
  from assms obtain c' where f: "find (\<lambda>c. \<not> recognized c) expr = Some c'"
    by (cases "find (\<lambda>c. \<not> recognized c) expr") (auto simp: find_None_iff)
  then have t: "tokenize expr = Inl (Unknown_character c')"
    by (simp add: tokenize_def tokenize_loop_unknown)
  from f have "find (\<lambda>c. \<not> recognized c) (strip expr) = Some c'"
    by (simp add: find_unrecognized_strip)
  then have "tokenize (strip expr) = Inl (Unknown_character c')"
    by (simp add: tokenize_def tokenize_loop_unknown)
  then have "safe_evaluate self expr masks = Inl (Unknown_character c')"
    by (simp add: safe_evaluate_def)
  with f t show ?thesis by blast
qed

theorem unknown_character_error_witness:
  "tokenize ''A U B #'' = Inl (Unknown_character CHR ''#'') \<and>
   safe_evaluate \<lparr>points = [()], in_circle = (\<lambda>k p. True)\<rparr> ''A U B #''
     [''A'' \<mapsto> [True], ''B'' \<mapsto> [False]] = Inl (Unknown_character CHR ''#'')"
proof -
  have h: "CHR ''#'' \<in> set ''A U B #''" "\<not> recognized CHR ''#''"
    by (simp_all add: recognized_def isspace_def)
  have f: "find (\<lambda>c. \<not> recognized c) ''A U B #'' = Some CHR ''#''"
    by (simp add: recognized_def isspace_def)
  from unknown_character_error [OF h, of "\<lparr>points = [()], in_circle = (\<lambda>k p. True)\<rparr>"
      "[''A'' \<mapsto> [True], ''B'' \<mapsto> [False]]"] f
  show ?thesis by auto
qed

section \<open>Formulas that end too early\<close>

text \<open>
  Claim C8. When the tokens of a formula are a well-formed expression \<open>ts\<close> followed by
  one binary operator, the parser needs an operand at the end of the stream and the evaluation
  fails with \<^verbatim>\<open>Unexpected end of expression\<close>; when they are an opening parenthesis
  followed by \<open>ts\<close>, it fails with \<^verbatim>\<open>Missing closing parenthesis\<close>. And when they
  are any prefix \<open>pre\<close> of \<open>ts\<close>, over a membership map whose vectors range over the
  universe, the evaluation fails with one of these two errors unless \<open>pre\<close> is a
  well-formed expression itself. No vector is returned where the evaluation fails.
\<close>

theorem truncated_formula_fails:
  assumes "parse_expression ts 0 masks (np_ones (length (points self))) = Inr (v, length ts)"
    and "op \<in> set [''AND'', ''XOR'', ''DIFF'', ''OR'']"
    and "tokenize (strip e1) = Inr (ts @ [op])"
    and "tokenize (strip e2) = Inr (''('' # ts)"
    and "ts = pre @ rest"
    and "tokenize (strip e3) = Inr pre"
    and "uniform masks (np_ones (length (points self)))"
  shows "safe_evaluate self e1 masks = Inl Unexpected_end_of_expression \<and>
         safe_evaluate self e2 masks = Inl Missing_closing_parenthesis \<and>
         (safe_evaluate self e3 masks = Inl Unexpected_end_of_expression \<or>
          safe_evaluate self e3 masks = Inl Missing_closing_parenthesis \<or>
          (\<exists>v'. parse_expression pre 0 masks (np_ones (length (points self)))
                  = Inr (v', length pre) \<and>
                safe_evaluate self e3 masks = Inr v'))"
proof -
  let ?u = "np_ones (length (points self))"
  from assms(1,2) have "parse_expression (ts @ [op]) 0 masks ?u = Inl Unexpected_end_of_expression"
    using parse_trailing_operator(1) by blast
  with assms(3) have a: "safe_evaluate self e1 masks = Inl Unexpected_end_of_expression"
    by (simp add: safe_evaluate_def)
  from assms(1) have "parse_expression (''('' # ts) 0 masks ?u = Inl Missing_closing_parenthesis"
    by (rule parse_unclosed_parenthesis)
  with assms(4) have b: "safe_evaluate self e2 masks = Inl Missing_closing_parenthesis"
    by (simp add: safe_evaluate_def)
  from assms(5) have "length pre \<le> length ts" "take (length pre) ts = pre"
    by simp_all
  with parse_truncated(1) [of ts 0 masks ?u "length pre"] assms(1,7) have
    "cut_outcome (parse_expression pre 0 masks ?u) (length pre) v (length ts)"
    by auto
  then have "parse_expression pre 0 masks ?u = Inl Unexpected_end_of_expression \<or>
      parse_expression pre 0 masks ?u = Inl Missing_closing_parenthesis \<or>
      (\<exists>v'. parse_expression pre 0 masks ?u = Inr (v', length pre))"
    using \<open>length pre \<le> length ts\<close> by (auto simp: cut_outcome_def)
  with assms(6) have c: "safe_evaluate self e3 masks = Inl Unexpected_end_of_expression \<or>
      safe_evaluate self e3 masks = Inl Missing_closing_parenthesis \<or>
      (\<exists>v'. parse_expression pre 0 masks ?u = Inr (v', length pre) \<and>
            safe_evaluate self e3 masks = Inr v')"
    by (auto simp: safe_evaluate_def)
  from a b c show ?thesis by blast
qed

theorem truncated_formula_fails_witness:
  "safe_evaluate \<lparr>points = [(), ()], in_circle = (\<lambda>k p. False)\<rparr> ''A U''
     [''A'' \<mapsto> [True, False], ''B'' \<mapsto> [True, True]] = Inl Unexpected_end_of_expression \<and>
   safe_evaluate \<lparr>points = [(), ()], in_circle = (\<lambda>k p. False)\<rparr> ''(A''
     [''A'' \<mapsto> [True, False], ''B'' \<mapsto> [True, True]] = Inl Missing_closing_parenthesis \<and>
   safe_evaluate \<lparr>points = [(), ()], in_circle = (\<lambda>k p. False)\<rparr> ''A U B &''
     [''A'' \<mapsto> [True, False], ''B'' \<mapsto> [True, True]] = Inl Unexpected_end_of_expression \<and>
   safe_evaluate \<lparr>points = [(), ()], in_circle = (\<lambda>k p. False)\<rparr> ''(A U B''
     [''A'' \<mapsto> [True, False], ''B'' \<mapsto> [True, True]] = Inl Missing_closing_parenthesis"
proof -
  let ?self = "\<lparr>points = [(), ()], in_circle = (\<lambda>k p. False)\<rparr> :: unit visualizer"
  let ?m = "[''A'' \<mapsto> [True, False], ''B'' \<mapsto> [True, True]]"
  have p1: "parse_expression [''A''] 0 ?m (np_ones (length (points ?self)))
              = Inr ([True, False], length [''A''])"
    by (simp add: parse_simps)
  have p2: "parse_expression [''A'', ''OR'', ''B''] 0 ?m (np_ones (length (points ?self)))
              = Inr ([True, True], length [''A'', ''OR'', ''B''])"
    by (simp add: parse_simps np_or_same_length)
  have o1: "''OR'' \<in> set [''AND'', ''XOR'', ''DIFF'', ''OR'']"
    and o2: "''AND'' \<in> set [''AND'', ''XOR'', ''DIFF'', ''OR'']"
    by simp_all
  have s1: "[''A''] = [''A''] @ []"
    and s2: "[''A'', ''OR'', ''B''] = ([''A''] @ [''OR'']) @ [''B'']"
    by simp_all
  have u: "uniform ?m (np_ones (length (points ?self)))"
    by (auto simp: uniform_def np_ones_def split: if_splits)
  from truncated_formula_fails [OF p1 o1 tokens_A_or tokens_open_A s1 tokens_A u]
    truncated_formula_fails [OF p2 o2 tokens_A_or_B_and tokens_open_A_or_B s2 tokens_A_or u]
  show ?thesis by simp
qed

section \<open>The blank formula\<close>

text \<open>
  Claim C9. For an empty formula, and for one of whitespace only,
  \<^verbatim>\<open>evaluate_expression\<close> returns the all-false vector with one entry for each point
  of the universe, and no error is raised or printed.
\<close>

theorem blank_formula_all_false:
  assumes "\<forall>c\<in>set expression. isspace c"
  shows "evaluate_expression self expression =
           (replicate (length (points self)) False, None)"
  using assms by (simp add: evaluate_expression_def strip_blank np_zeros_def)

theorem blank_formula_all_false_witness:
  "evaluate_expression \<lparr>points = [(), (), ()], in_circle = (\<lambda>k p. True)\<rparr> ''''
     = ([False, False, False], None) \<and>
   evaluate_expression \<lparr>points = [(), (), ()], in_circle = (\<lambda>k p. True)\<rparr> ''   ''
     = ([False, False, False], None)"
  using blank_formula_all_false [of "''''" "\<lparr>points = [(), (), ()], in_circle = (\<lambda>k p. True)\<rparr>"]
    blank_formula_all_false [of "''   ''" "\<lparr>points = [(), (), ()], in_circle = (\<lambda>k p. True)\<rparr>"]
  by (simp add: isspace_def)

section \<open>Parentheses\<close>

text \<open>
  The value of the two formulas as numpy expressions, for every membership map, with the error
  of an operator that raises.
\<close>

lemma eval_paren_or_and:
  assumes "masks ''A'' = Some a" and "masks ''B'' = Some b" and "masks ''C'' = Some c"
  shows "safe_evaluate self ''(A U B) & C'' masks =
           (case np_or a b of Inl e \<Rightarrow> Inl e | Inr d \<Rightarrow> np_and d c)"
  using assms
  by (cases "np_or a b"; cases "np_and (projr (np_or a b)) c")
     (simp_all add: safe_evaluate_def tokens_paren_or_and parse_simps)

lemma eval_or_paren_and:
  assumes "masks ''A'' = Some a" and "masks ''B'' = Some b" and "masks ''C'' = Some c"
  shows "safe_evaluate self ''A U (B & C)'' masks =
           (case np_and b c of Inl e \<Rightarrow> Inl e | Inr d \<Rightarrow> np_or a d)"
  using assms
  by (cases "np_and b c"; cases "np_or a (projr (np_and b c))")
     (simp_all add: safe_evaluate_def tokens_or_paren_and parse_simps)

lemma eval_parentheses_elementwise:
  assumes "masks ''A'' = Some a" and "masks ''B'' = Some b" and "masks ''C'' = Some c"
    and "length a = length b" and "length b = length c"
  shows "safe_evaluate self ''(A U B) & C'' masks = Inr (map2 (\<and>) (map2 (\<or>) a b) c)"
    and "safe_evaluate self ''A U (B & C)'' masks = Inr (map2 (\<or>) a (map2 (\<and>) b c))"
  using assms
  by (simp_all add: eval_paren_or_and eval_or_paren_and np_or_same_length np_and_same_length)

text \<open>
  A parenthesized group is an atom: where the expression after the opening parenthesis
  parses to \<open>v\<close> and is followed by the closing parenthesis, \<^verbatim>\<open>_parse_atom\<close> returns
  \<open>v\<close> and the position after the closing parenthesis.
\<close>

lemma parse_atom_group:
  assumes "pos < length tokens" and "tokens ! pos = ''(''"
    and "parse_expression tokens (pos + 1) masks universal = Inr (v, pos')"
    and "pos' < length tokens" and "tokens ! pos' = '')''"
  shows "parse_atom tokens pos masks universal = Inr (v, pos' + 1)"
  using assms by (simp add: parse_atom.simps)

text \<open>
  Claim C10. Grouping overrides the precedence. For every membership map with vectors
  \<open>a\<close>, \<open>b\<close>, \<open>c\<close> for \<open>A\<close>, \<open>B\<close>, \<open>C\<close>, the formula \<open>(A U B) & C\<close> evaluates
  to \<open>(a | b) & c\<close> and \<open>A U (B & C)\<close> to \<open>a | (b & c)\<close> (elementwise for vectors of
  one length), a group in parentheses being parsed as one atom with the value of the
  expression inside; and there is a membership map for which both formulas evaluate to a
  vector and the two vectors differ.
\<close>

theorem parentheses_override_precedence:
  assumes "masks ''A'' = Some a" and "masks ''B'' = Some b" and "masks ''C'' = Some c"
    and "pos < length tokens" and "tokens ! pos = ''(''"
    and "parse_expression tokens (pos + 1) masks' universal = Inr (v, pos')"
    and "pos' < length tokens" and "tokens ! pos' = '')''"
  shows "safe_evaluate self ''(A U B) & C'' masks =
           (case np_or a b of Inl e \<Rightarrow> Inl e | Inr d \<Rightarrow> np_and d c) \<and>
         safe_evaluate self ''A U (B & C)'' masks =
           (case np_and b c of Inl e \<Rightarrow> Inl e | Inr d \<Rightarrow> np_or a d) \<and>
         (length a = length b \<and> length b = length c \<longrightarrow>
            safe_evaluate self ''(A U B) & C'' masks =
              Inr (map2 (\<and>) (map2 (\<or>) a b) c) \<and>
            safe_evaluate self ''A U (B & C)'' masks =
              Inr (map2 (\<or>) a (map2 (\<and>) b c))) \<and>
         parse_atom tokens pos masks' universal = Inr (v, pos' + 1) \<and>
         safe_evaluate self ''(A U B) & C''
             [''A'' \<mapsto> [True], ''B'' \<mapsto> [False], ''C'' \<mapsto> [False]] = Inr [False] \<and>
         safe_evaluate self ''A U (B & C)''
             [''A'' \<mapsto> [True], ''B'' \<mapsto> [False], ''C'' \<mapsto> [False]] = Inr [True] \<and>
         (\<exists>m x y. safe_evaluate self ''(A U B) & C'' m = Inr x \<and>
                  safe_evaluate self ''A U (B & C)'' m = Inr y \<and> x \<noteq> y)"
proof -
  let ?m = "[''A'' \<mapsto> [True], ''B'' \<mapsto> [False], ''C'' \<mapsto> [False]]"
  have np1: "safe_evaluate self ''(A U B) & C'' masks =
      (case np_or a b of Inl e \<Rightarrow> Inl e | Inr d \<Rightarrow> np_and d c)"
    using assms(1-3) by (rule eval_paren_or_and)
  have np2: "safe_evaluate self ''A U (B & C)'' masks =
      (case np_and b c of Inl e \<Rightarrow> Inl e | Inr d \<Rightarrow> np_or a d)"
    using assms(1-3) by (rule eval_or_paren_and)
  have el: "length a = length b \<and> length b = length c \<longrightarrow>
      safe_evaluate self ''(A U B) & C'' masks = Inr (map2 (\<and>) (map2 (\<or>) a b) c) \<and>
      safe_evaluate self ''A U (B & C)'' masks = Inr (map2 (\<or>) a (map2 (\<and>) b c))"
    using assms(1-3) eval_parentheses_elementwise [of masks a b c self] by blast
  have at: "parse_atom tokens pos masks' universal = Inr (v, pos' + 1)"
    using assms(4-8) by (rule parse_atom_group)
  have c1: "safe_evaluate self ''(A U B) & C'' ?m = Inr [False]"
    using eval_parentheses_elementwise(1) [of ?m "[True]" "[False]" "[False]" self] by simp
  have c2: "safe_evaluate self ''A U (B & C)'' ?m = Inr [True]"
    using eval_parentheses_elementwise(2) [of ?m "[True]" "[False]" "[False]" self] by simp
  from c1 c2 have ex: "\<exists>m x y. safe_evaluate self ''(A U B) & C'' m = Inr x \<and>
      safe_evaluate self ''A U (B & C)'' m = Inr y \<and> x \<noteq> y"
    by blast
  from np1 np2 el at c1 c2 ex show ?thesis by blast
qed

theorem parentheses_override_precedence_witness:
  "safe_evaluate \<lparr>points = [(), ()], in_circle = (\<lambda>k p. False)\<rparr> ''(A U B) & C''
     [''A'' \<mapsto> [False, True], ''B'' \<mapsto> [True, False], ''C'' \<mapsto> [False, False]]
     = Inr [False, False] \<and>
   safe_evaluate \<lparr>points = [(), ()], in_circle = (\<lambda>k p. False)\<rparr> ''A U (B & C)''
     [''A'' \<mapsto> [False, True], ''B'' \<mapsto> [True, False], ''C'' \<mapsto> [False, False]]
     = Inr [False, True] \<and>
   parse_atom [''('', ''A'', ''OR'', ''B'', '')'', ''AND'', ''C''] 0
     [''A'' \<mapsto> [False, True], ''B'' \<mapsto> [True, False], ''C'' \<mapsto> [False, False]]
     [True, True] = Inr ([True, True], 5)"
proof -
  let ?self = "\<lparr>points = [(), ()], in_circle = (\<lambda>k p. False)\<rparr> :: unit visualizer"
  let ?m = "[''A'' \<mapsto> [False, True], ''B'' \<mapsto> [True, False], ''C'' \<mapsto> [False, False]]"
  let ?ts = "[''('', ''A'', ''OR'', ''B'', '')'', ''AND'', ''C'']"
  have a: "?m ''A'' = Some [False, True]" and b: "?m ''B'' = Some [True, False]"
    and c: "?m ''C'' = Some [False, False]"
    by simp_all
  have p: "(0::nat) < length ?ts" and t: "?ts ! 0 = ''(''" by simp_all
  have inner: "parse_expression ?ts (0 + 1) ?m [True, True] = Inr ([True, True], 4)"
    by (simp add: parse_simps np_or_same_length)
  have q: "(4::nat) < length ?ts" and t': "?ts ! 4 = '')''" by simp_all
  note th = parentheses_override_precedence [OF a b c p t inner q t', of ?self]
  have len: "length [False, True] = length [True, False] \<and>
      length [True, False] = length [False, False]"
    by simp
  from th len have
    e1: "safe_evaluate ?self ''(A U B) & C'' ?m =
           Inr (map2 (\<and>) (map2 (\<or>) [False, True] [True, False]) [False, False])" and
    e2: "safe_evaluate ?self ''A U (B & C)'' ?m =
           Inr (map2 (\<or>) [False, True] (map2 (\<and>) [True, False] [False, False]))" and
    e3: "parse_atom ?ts 0 ?m [True, True] = Inr ([True, True], 4 + 1)"
    by blast+
  have v: "map2 (\<and>) (map2 (\<or>) [False, True] [True, False]) [False, False] = [False, False]"
    "map2 (\<or>) [False, True] (map2 (\<and>) [True, False] [False, False]) = [False, True]"
    "4 + 1 = (5::nat)"
    by simp_all
  from e1 e2 e3 show ?thesis
    unfolding v by blast
qed

end
